theory Spec2Isabelle
  imports Main "HOL-Library.Sublist"
begin

text \<open>
  Turtle CLI: the configuration layer of \<open>cli.py\<close> and \<open>setup/wizard.py\<close> (loading and
  validating the configuration, the setup wizard and its files), and the agent loop
  with its conversation state that \<open>cli.py\<close> drives. The first part of the theory
  holds the definitions, the second the lemmas and the theorems of the claims C1 to
  C10.
\<close>

section \<open>Python values used by the configuration layer\<close>

text \<open>
  A Python \<open>str\<close> is a sequence of Unicode code points, so it is modelled as a list of
  code points (\<open>nat\<close>), not as a list of bytes. \<open>py\<close> turns a literal of the source
  into that representation. The encoding of text files and of the process environment
  is UTF-8, which represents every code point that is not a lone surrogate. The text
  written by \<open>print\<close> is not modelled. The operating system is POSIX: text is stored
  as written, and environment variable names are case sensitive.
\<close>

type_synonym pystr = "nat list"

definition py :: "string \<Rightarrow> pystr" where
  "py s = map of_char s"

abbreviation (input) NUL :: nat where "NUL \<equiv> 0"
abbreviation (input) LF :: nat where "LF \<equiv> 10"
abbreviation (input) CR :: nat where "CR \<equiv> 13"
abbreviation (input) HASH :: nat where "HASH \<equiv> 35"
abbreviation (input) EQUALS :: nat where "EQUALS \<equiv> 61"

text \<open>The characters \<open>str.isspace\<close> accepts, which are the ones \<open>str.strip()\<close> removes.\<close>

definition isspace :: "nat \<Rightarrow> bool" where
  "isspace c \<longleftrightarrow>
     (9 \<le> c \<and> c \<le> 13) \<or> (28 \<le> c \<and> c \<le> 32) \<or> c = 133 \<or> c = 160 \<or> c = 5760 \<or>
     (8192 \<le> c \<and> c \<le> 8202) \<or> c = 8232 \<or> c = 8233 \<or> c = 8239 \<or> c = 8287 \<or> c = 12288"

definition lstrip :: "pystr \<Rightarrow> pystr" where
  "lstrip s = dropWhile isspace s"

definition rstrip :: "pystr \<Rightarrow> pystr" where
  "rstrip s = rev (dropWhile isspace (rev s))"

definition strip :: "pystr \<Rightarrow> pystr" where
  "strip s = rstrip (lstrip s)"

definition startswith :: "pystr \<Rightarrow> pystr \<Rightarrow> bool" where
  "startswith s p \<longleftrightarrow> take (length p) s = p"

text \<open>\<open>s.split(sep, 1)\<close> for a separator of one character: at most one split, at the
  first occurrence of the separator.\<close>

definition split1 :: "pystr \<Rightarrow> nat \<Rightarrow> pystr list" where
  "split1 s sep =
     (if sep \<in> set s
      then [takeWhile (\<lambda>c. c \<noteq> sep) s, tl (dropWhile (\<lambda>c. c \<noteq> sep) s)]
      else [s])"

text \<open>The exceptions the modelled code can meet. \<open>SystemExit\<close> is part of the
  outcome types below.\<close>

datatype exception =
    ValueError | OSError | IsADirectoryError | NotADirectoryError | FileExistsError
  | FileNotFoundError | PermissionError | UnicodeDecodeError | UnicodeEncodeError
  | EOFError | KeyboardInterrupt

text \<open>Whether UTF-8 can encode a string: it has no surrogate code point.\<close>

definition encodable :: "pystr \<Rightarrow> bool" where
  "encodable s \<longleftrightarrow> list_all (\<lambda>c. c < 55296 \<or> 57343 < c) s"

text \<open>Truthiness of an \<open>Optional[str]\<close>: \<open>None\<close> and \<open>''\<close> are falsy.\<close>

definition truthy :: "pystr option \<Rightarrow> bool" where
  "truthy v = (case v of None \<Rightarrow> False | Some s \<Rightarrow> s \<noteq> [])"

section \<open>The world the program runs in\<close>

text \<open>
  A path is missing, a directory, or a file. A file that the process may read and write
  and whose bytes decode as text is \<open>Regular\<close>, with its content: text for \<open>.env\<close>, and
  for \<open>.turtle/config.json\<close> the object that \<open>json.dump\<close> serialises (nothing in the
  program reads it back). \<open>NoAccess\<close> is a file that the process may neither read nor
  write, so that \<open>open\<close> raises \<open>PermissionError\<close>. \<open>Garbled\<close> is a file that the
  process may read and write but whose bytes do not all decode: iterating over it
  delivers the given lines (those of the chunks decoded before the error, none when the
  bytes lie in the first chunk) and then raises \<open>UnicodeDecodeError\<close>.
\<close>

datatype 'a entry = Missing | Folder | Regular 'a | NoAccess | Garbled "pystr list"

datatype json = JString pystr | JBool bool

type_synonym json_object = "(pystr \<times> json) list"

text \<open>\<open>.turtle\<close> is missing, something that is not a directory, or a directory that
  holds the entry \<open>config.json\<close>.\<close>

datatype turtle_dir = NoTurtle | NotADirectory | TurtleDir "json_object entry"

text \<open>Standard input is a sequence of events: a line (without its newline) or an
  interrupt from the keyboard; when it is exhausted \<open>input\<close> raises \<open>EOFError\<close>.\<close>

datatype stdin_event = Line pystr | Interrupt

record world =
  env_file :: "pystr entry"
  config_dir :: turtle_dir
  stdin :: "stdin_event list"
  prompts :: nat
  environ :: "pystr \<rightharpoonup> pystr"

text \<open>\<open>Path.exists\<close> for the two paths of the wizard.\<close>

definition env_file_exists :: "world \<Rightarrow> bool" where
  "env_file_exists w \<longleftrightarrow> env_file w \<noteq> Missing"

definition config_file_exists :: "world \<Rightarrow> bool" where
  "config_file_exists w \<longleftrightarrow>
     (case config_dir w of TurtleDir e \<Rightarrow> e \<noteq> Missing | _ \<Rightarrow> False)"

text \<open>\<open>input(prompt)\<close>: one more prompt is shown, and the next event of standard input
  is consumed.\<close>

definition input :: "world \<Rightarrow> (exception + pystr) \<times> world" where
  "input w =
     (case stdin w of
        [] \<Rightarrow> (Inl EOFError, w\<lparr>prompts := Suc (prompts w)\<rparr>)
      | Interrupt # rest \<Rightarrow>
          (Inl KeyboardInterrupt, w\<lparr>stdin := rest, prompts := Suc (prompts w)\<rparr>)
      | Line s # rest \<Rightarrow> (Inr s, w\<lparr>stdin := rest, prompts := Suc (prompts w)\<rparr>))"

text \<open>
  Reading a text file opened with \<open>open(path)\<close>: universal newlines turn \<open>\r\n\<close> and
  a lone \<open>\r\<close> into \<open>\n\<close>, and iterating over the file yields the lines with their
  \<open>\n\<close> (the last line may lack it).
\<close>

fun universal_newlines :: "pystr \<Rightarrow> pystr" where
  "universal_newlines [] = []"
| "universal_newlines [c] = [if c = CR then LF else c]"
| "universal_newlines (c # d # ds) =
     (if c = CR \<and> d = LF then LF # universal_newlines ds
      else if c = CR then LF # universal_newlines (d # ds)
      else c # universal_newlines (d # ds))"

fun keepends :: "pystr \<Rightarrow> pystr list" where
  "keepends [] = []"
| "keepends (c # cs) =
     (if c = LF then [LF] # keepends cs
      else (case keepends cs of [] \<Rightarrow> [[c]] | l # ls \<Rightarrow> (c # l) # ls))"

definition file_lines :: "pystr \<Rightarrow> pystr list" where
  "file_lines text = keepends (universal_newlines text)"

text \<open>\<open>os.environ[key] = value\<close>: a name or value with an embedded NUL is refused with
  \<open>ValueError\<close>, and so is a name containing \<open>=\<close>; an empty name is refused by
  \<open>setenv\<close> (\<open>OSError\<close>, \<open>ValueError\<close> in other versions of the interpreter).\<close>

definition environ_setitem ::
    "(pystr \<rightharpoonup> pystr) \<Rightarrow> pystr \<Rightarrow> pystr \<Rightarrow> exception + (pystr \<rightharpoonup> pystr)" where
  "environ_setitem env key v =
     (if NUL \<in> set key \<or> NUL \<in> set v \<or> EQUALS \<in> set key then Inl ValueError
      else if key = [] then Inl OSError
      else Inr (env(key \<mapsto> v)))"

section \<open>The setup wizard (\<open>setup/wizard.py\<close>)\<close>

definition is_first_run :: "world \<Rightarrow> bool" where
  "is_first_run w \<longleftrightarrow> \<not> env_file_exists w \<and> \<not> config_file_exists w"

definition providers :: "pystr \<rightharpoonup> pystr" where
  "providers =
     map_of [(py ''1'', py ''openai''), (py ''2'', py ''anthropic''), (py ''3'', py ''gemini'')]"

function get_provider_choice :: "world \<Rightarrow> (exception + pystr) \<times> world" where
  "get_provider_choice w =
     (case input w of
        (Inl e, w') \<Rightarrow> (Inl e, w')
      | (Inr choice, w') \<Rightarrow>
          (case providers (strip choice) of
             Some provider \<Rightarrow> (Inr provider, w')
           | None \<Rightarrow> get_provider_choice w'))"
  by pat_completeness auto
termination
  by (relation "measure (\<lambda>w. length (stdin w))")
     (auto simp: input_def split: list.splits stdin_event.splits)

declare get_provider_choice.simps [simp del]

definition models :: "pystr \<rightharpoonup> pystr list" where
  "models =
     map_of
       [(py ''openai'', [py ''gpt-4'', py ''gpt-4-turbo'', py ''gpt-3.5-turbo'']),
        (py ''anthropic'', [py ''claude-3-opus'', py ''claude-3-sonnet'', py ''claude-3-haiku'']),
        (py ''gemini'', [py ''gemini-1.5-flash'', py ''gemini-1.5-pro''])]"

definition provider_models :: "pystr \<Rightarrow> pystr list" where
  "provider_models provider =
     (case models provider of Some ms \<Rightarrow> ms | None \<Rightarrow> [provider @ py ''-default''])"

text \<open>
  \<open>int(...)\<close> of the interpreter is a parameter \<open>int_of\<close> of the model: it gives the
  integer a string denotes, or \<open>None\<close> where \<open>int\<close> raises \<open>ValueError\<close> (the only
  exception it raises on a string). The input line is not stripped by the wizard here.
\<close>

function get_model_choice ::
    "(pystr \<Rightarrow> int option) \<Rightarrow> pystr \<Rightarrow> world \<Rightarrow> (exception + pystr) \<times> world" where
  "get_model_choice int_of provider w =
     (case input w of
        (Inl e, w') \<Rightarrow> (Inl e, w')
      | (Inr line, w') \<Rightarrow>
          (case int_of line of
             Some choice \<Rightarrow>
               if 1 \<le> choice \<and> choice \<le> int (length (provider_models provider))
               then (Inr (provider_models provider ! nat (choice - 1)), w')
               else get_model_choice int_of provider w'
           | None \<Rightarrow> get_model_choice int_of provider w'))"
  by pat_completeness auto
termination
  by (relation "measure (\<lambda>(int_of, provider, w). length (stdin w))")
     (auto simp: input_def split: list.splits stdin_event.splits)

declare get_model_choice.simps [simp del]

function get_api_key :: "pystr \<Rightarrow> world \<Rightarrow> (exception + pystr) \<times> world" where
  "get_api_key provider w =
     (case input w of
        (Inl e, w') \<Rightarrow> (Inl e, w')
      | (Inr line, w') \<Rightarrow>
          (if strip line \<noteq> [] then (Inr (strip line), w') else get_api_key provider w'))"
  by pat_completeness auto
termination
  by (relation "measure (\<lambda>(provider, w). length (stdin w))")
     (auto simp: input_def split: list.splits stdin_event.splits)

declare get_api_key.simps [simp del]

definition wizard_validate_config :: "pystr \<Rightarrow> pystr \<Rightarrow> pystr \<Rightarrow> bool" where
  "wizard_validate_config provider model api_key =
     (if provider = [] \<or> model = [] then False
      else if api_key = [] then False
      else True)"

definition env_content :: "pystr \<Rightarrow> pystr \<Rightarrow> pystr \<Rightarrow> pystr" where
  "env_content provider model api_key =
     py ''# Turtle CLI Configuration'' @ [LF] @
     py ''TURTLE_PROVIDER='' @ provider @ [LF] @
     py ''TURTLE_MODEL='' @ model @ [LF] @
     py ''TURTLE_API_KEY='' @ api_key @ [LF]"

definition config_data :: "pystr \<Rightarrow> pystr \<Rightarrow> json_object" where
  "config_data provider model =
     [(py ''provider'', JString provider), (py ''model'', JString model),
      (py ''setup_completed'', JBool True)]"

text \<open>\<open>open(self.env_file, "w")\<close> followed by the write. Opening truncates the file;
  a content that cannot be encoded makes \<open>f.write\<close> raise \<open>UnicodeEncodeError\<close>, and
  the file stays empty.\<close>

definition write_env_file :: "pystr \<Rightarrow> world \<Rightarrow> (exception + unit) \<times> world" where
  "write_env_file content w =
     (case env_file w of
        Folder \<Rightarrow> (Inl IsADirectoryError, w)
      | NoAccess \<Rightarrow> (Inl PermissionError, w)
      | _ \<Rightarrow>
          if encodable content then (Inr (), w\<lparr>env_file := Regular content\<rparr>)
          else (Inl UnicodeEncodeError, w\<lparr>env_file := Regular []\<rparr>))"

text \<open>\<open>self.config_dir.mkdir(exist_ok=True)\<close>: an existing directory is accepted, an
  existing path that is not a directory is not.\<close>

definition mkdir_config_dir :: "world \<Rightarrow> (exception + unit) \<times> world" where
  "mkdir_config_dir w =
     (case config_dir w of
        NoTurtle \<Rightarrow> (Inr (), w\<lparr>config_dir := TurtleDir Missing\<rparr>)
      | NotADirectory \<Rightarrow> (Inl FileExistsError, w)
      | TurtleDir e \<Rightarrow> (Inr (), w))"

text \<open>\<open>open(self.config_file, "w")\<close> followed by \<open>json.dump\<close>, whose output is
  ASCII.\<close>

definition write_config_file :: "json_object \<Rightarrow> world \<Rightarrow> (exception + unit) \<times> world" where
  "write_config_file obj w =
     (case config_dir w of
        NoTurtle \<Rightarrow> (Inl FileNotFoundError, w)
      | NotADirectory \<Rightarrow> (Inl NotADirectoryError, w)
      | TurtleDir Folder \<Rightarrow> (Inl IsADirectoryError, w)
      | TurtleDir NoAccess \<Rightarrow> (Inl PermissionError, w)
      | TurtleDir _ \<Rightarrow> (Inr (), w\<lparr>config_dir := TurtleDir (Regular obj)\<rparr>))"

definition save_configuration ::
    "pystr \<Rightarrow> pystr \<Rightarrow> pystr \<Rightarrow> world \<Rightarrow> (exception + unit) \<times> world" where
  "save_configuration provider model api_key w =
     (case write_env_file (env_content provider model api_key) w of
        (Inl e, w1) \<Rightarrow> (Inl e, w1)
      | (Inr _, w1) \<Rightarrow>
          (case mkdir_config_dir w1 of
             (Inl e, w2) \<Rightarrow> (Inl e, w2)
           | (Inr _, w2) \<Rightarrow> write_config_file (config_data provider model) w2))"

text \<open>What a call of the wizard ends with: a returned value, or \<open>sys.exit\<close>.\<close>

datatype setup_outcome = Returned bool | SystemExit nat

text \<open>The two handlers of \<open>run_setup\<close> and \<open>force_setup\<close>: \<open>KeyboardInterrupt\<close> goes
  to \<open>handle_cancellation\<close>, which exits with status 0; any other exception makes the
  wizard return \<open>False\<close>.\<close>

definition handle_exception :: "exception \<Rightarrow> world \<Rightarrow> setup_outcome \<times> world" where
  "handle_exception e w =
     (if e = KeyboardInterrupt then (SystemExit 0, w) else (Returned False, w))"

definition run_setup :: "(pystr \<Rightarrow> int option) \<Rightarrow> world \<Rightarrow> setup_outcome \<times> world" where
  "run_setup int_of w =
     (if \<not> is_first_run w then (Returned False, w)
      else
        (case get_provider_choice w of
           (Inl e, w1) \<Rightarrow> handle_exception e w1
         | (Inr provider, w1) \<Rightarrow>
        (case get_model_choice int_of provider w1 of
           (Inl e, w2) \<Rightarrow> handle_exception e w2
         | (Inr model, w2) \<Rightarrow>
        (case get_api_key provider w2 of
           (Inl e, w3) \<Rightarrow> handle_exception e w3
         | (Inr api_key, w3) \<Rightarrow>
        (if \<not> wizard_validate_config provider model api_key then (Returned False, w3)
         else
           (case save_configuration provider model api_key w3 of
              (Inl e, w4) \<Rightarrow> handle_exception e w4
            | (Inr _, w4) \<Rightarrow> (Returned True, w4)))))))"

definition force_setup :: "(pystr \<Rightarrow> int option) \<Rightarrow> world \<Rightarrow> setup_outcome \<times> world" where
  "force_setup int_of w =
     (case get_provider_choice w of
        (Inl e, w1) \<Rightarrow> handle_exception e w1
      | (Inr provider, w1) \<Rightarrow>
     (case get_model_choice int_of provider w1 of
        (Inl e, w2) \<Rightarrow> handle_exception e w2
      | (Inr model, w2) \<Rightarrow>
     (case get_api_key provider w2 of
        (Inl e, w3) \<Rightarrow> handle_exception e w3
      | (Inr api_key, w3) \<Rightarrow>
     (if \<not> wizard_validate_config provider model api_key then (Returned False, w3)
      else
        (case save_configuration provider model api_key w3 of
           (Inl e, w4) \<Rightarrow> handle_exception e w4
         | (Inr _, w4) \<Rightarrow> (Returned True, w4))))))"

definition run_first_time_setup ::
    "(pystr \<Rightarrow> int option) \<Rightarrow> world \<Rightarrow> setup_outcome \<times> world" where
  "run_first_time_setup int_of w = run_setup int_of w"

definition run_forced_setup :: "(pystr \<Rightarrow> int option) \<Rightarrow> world \<Rightarrow> setup_outcome \<times> world" where
  "run_forced_setup int_of w = force_setup int_of w"

section \<open>The command line (\<open>cli.py\<close>)\<close>

text \<open>The loop over the lines of \<open>.env\<close>. An exception leaves the assignments made so
  far in the environment.\<close>

fun load_env_lines ::
    "pystr list \<Rightarrow> (pystr \<rightharpoonup> pystr) \<Rightarrow> exception option \<times> (pystr \<rightharpoonup> pystr)" where
  "load_env_lines [] env = (None, env)"
| "load_env_lines (line # rest) env =
     (if strip line \<noteq> [] \<and> \<not> startswith line (py ''#'') then
        (case split1 (strip line) EQUALS of
           [key, v] \<Rightarrow>
             (case environ_setitem env key v of
                Inl e \<Rightarrow> (Some e, env)
              | Inr env' \<Rightarrow> load_env_lines rest env')
         | _ \<Rightarrow> (Some ValueError, env))
      else load_env_lines rest env)"

text \<open>A configuration dictionary maps a key to an \<open>Optional[str]\<close>: \<open>config k = None\<close>
  is an absent key, \<open>Some None\<close> the value \<open>None\<close>.\<close>

type_synonym config = "pystr \<rightharpoonup> pystr option"

text \<open>\<open>open(env_file)\<close> raises for a directory and for a file without access; a file
  whose bytes do not decode raises once the lines decoded before have been handled; the
  loop itself raises where a line cannot be assigned.\<close>

definition load_config :: "world \<Rightarrow> (exception + config) \<times> world" where
  "load_config w =
     (case
        (if env_file_exists w then
           (case env_file w of
              Regular text \<Rightarrow> load_env_lines (file_lines text) (environ w)
            | Garbled delivered \<Rightarrow>
                (case load_env_lines delivered (environ w) of
                   (None, env) \<Rightarrow> (Some UnicodeDecodeError, env)
                 | (Some e, env) \<Rightarrow> (Some e, env))
            | NoAccess \<Rightarrow> (Some PermissionError, environ w)
            | _ \<Rightarrow> (Some IsADirectoryError, environ w))
         else (None, environ w))
      of
        (Some e, env) \<Rightarrow> (Inl e, w\<lparr>environ := env\<rparr>)
      | (None, env) \<Rightarrow>
          (Inr (Map.empty
                 (py ''provider'' \<mapsto> env (py ''TURTLE_PROVIDER''),
                  py ''model'' \<mapsto> env (py ''TURTLE_MODEL''),
                  py ''api_key'' \<mapsto> env (py ''TURTLE_API_KEY''))),
           w\<lparr>environ := env\<rparr>))"

text \<open>\<open>config.get(field)\<close>: \<open>None\<close> for an absent key.\<close>

definition dict_get :: "config \<Rightarrow> pystr \<Rightarrow> pystr option" where
  "dict_get config field = (case config field of None \<Rightarrow> None | Some v \<Rightarrow> v)"

definition required_fields :: "pystr list" where
  "required_fields = [py ''provider'', py ''model'', py ''api_key'']"

fun validate_fields :: "config \<Rightarrow> pystr list \<Rightarrow> bool" where
  "validate_fields config [] = True"
| "validate_fields config (field # rest) =
     (if \<not> truthy (dict_get config field) then False else validate_fields config rest)"

definition validate_config :: "config \<Rightarrow> bool" where
  "validate_config config = validate_fields config required_fields"

text \<open>The result of \<open>parse_args\<close>.\<close>

record args =
  args_prompt :: "pystr option"
  args_setup :: bool
  args_provider :: "pystr option"
  args_model :: "pystr option"
  args_api_key :: "pystr option"
  args_stream :: bool
  args_verbose :: bool
  args_system_prompt :: "pystr option"

text \<open>
  How \<open>main\<close> ends: \<open>sys.exit\<close> with a status, an exception that nothing catches, or
  the \<open>try\<close> block that constructs \<open>LLMClient\<close>, \<open>ConversationManager\<close> and the tool
  registry from the validated configuration (these classes are not part of the two
  modules, so the model stops where control reaches them).
\<close>

datatype main_outcome = Exit nat | Uncaught exception | Components config

definition main :: "(pystr \<Rightarrow> int option) \<Rightarrow> args \<Rightarrow> world \<Rightarrow> main_outcome \<times> world" where
  "main int_of a w =
     (if args_setup a then
        (case run_forced_setup int_of w of
           (Returned success, w') \<Rightarrow> (Exit (if success then 0 else 1), w')
         | (SystemExit status, w') \<Rightarrow> (Exit status, w'))
      else
        (case load_config w of
           (Inl e, w') \<Rightarrow> (Uncaught e, w')
         | (Inr config, w') \<Rightarrow>
             (let config = (if truthy (args_provider a)
                            then config(py ''provider'' \<mapsto> args_provider a) else config);
                  config = (if truthy (args_model a)
                            then config(py ''model'' \<mapsto> args_model a) else config);
                  config = (if truthy (args_api_key a)
                            then config(py ''api_key'' \<mapsto> args_api_key a) else config)
              in if \<not> validate_config config then (Exit 1, w')
                 else (Components config, w'))))"

section \<open>The agent loop and its conversation state\<close>

text \<open>
  \<open>cli.py\<close> imports the tool registry, the conversation manager and the two
  orchestrators (\<open>tools/protocol.py\<close>, \<open>llm/conversation.py\<close>, \<open>tools/loop.py\<close>,
  \<open>tools/streaming.py\<close>) and only calls them; these modules are not among the source
  files. Every definition of this section is therefore modelled from the
  specification (its sections 3, 4, 6 and 7), and says so.
\<close>

subsection \<open>Data model\<close>

text \<open>Modelled from the spec: the role of a Message (section 3), one of \<open>system\<close>,
  \<open>user\<close>, \<open>assistant\<close>, \<open>tool-result\<close>; the implementation of the messages is missing
  from the source.\<close>

datatype role = System | User | Assistant | ToolResult

text \<open>Modelled from the spec: a tool-call request (section 3), with its invocation
  id, tool name and argument payload; the request type of \<open>tools/protocol.py\<close> is
  missing.\<close>

record tool_call =
  invocation_id :: string
  tool_name :: string
  arguments :: string

text \<open>Modelled from the spec: a Message (section 3) has a role, a content, an ordered
  list of tool-call requests and, for a tool-result, the invocation id it answers; the
  message type of \<open>llm/conversation.py\<close> is missing.\<close>

record message =
  role :: role
  content :: string
  tool_calls :: "tool_call list"
  answers :: "string option"

text \<open>Modelled from the spec: the error taxonomy of section 7; the exception classes
  of the missing modules. A backend failure carries its description and the number of
  tool cycles that had already occurred.\<close>

datatype loop_error =
    UnknownTool string | DuplicateTool string | DanglingToolResult | ToolLoopExceeded
  | BackendFailure string nat

subsection \<open>Tool registry\<close>

text \<open>Modelled from the spec: the Tool Descriptor (section 3) of the missing
  \<open>tools/protocol.py\<close>: a name, a description and a schema of the arguments.\<close>

record tool_descriptor =
  descriptor_name :: string
  description :: string
  schema :: string

text \<open>Modelled from the spec: the result of \<open>invoke\<close> (sections 2 and 6), a success
  payload or a failure description; the tool implementations are missing.\<close>

datatype tool_outcome = Success string | Failure string

text \<open>Modelled from the spec: a Tool Capability (sections 2 and 6) of the missing
  \<open>tools/adapters.py\<close>: a descriptor and a synchronous \<open>invoke\<close>. Tools have side
  effects, so \<open>invoke\<close> acts on an environment \<open>'e\<close> that the loop threads through the
  invocations.\<close>

record 'e tool =
  descriptor :: tool_descriptor
  invoke :: "string \<Rightarrow> 'e \<Rightarrow> tool_outcome \<times> 'e"

text \<open>Modelled from the spec: \<open>register\<close> (section 4.1) of the missing \<open>ToolRegistry\<close>
  adds a tool and fails with \<open>DuplicateTool\<close> when the name exists. The registry is the
  list of the tools in registration order.\<close>

definition register :: "'e tool list \<Rightarrow> 'e tool \<Rightarrow> loop_error + 'e tool list" where
  "register registry t =
     (if descriptor_name (descriptor t) \<in> set (map (descriptor_name \<circ> descriptor) registry)
      then Inl (DuplicateTool (descriptor_name (descriptor t)))
      else Inr (registry @ [t]))"

text \<open>Modelled from the spec: \<open>lookup\<close> (section 4.1) of the missing \<open>ToolRegistry\<close>
  returns the tool of a name or fails with \<open>UnknownTool\<close>.\<close>

definition lookup :: "'e tool list \<Rightarrow> string \<Rightarrow> loop_error + 'e tool" where
  "lookup registry n =
     (case find (\<lambda>t. descriptor_name (descriptor t) = n) registry of
        None \<Rightarrow> Inl (UnknownTool n)
      | Some t \<Rightarrow> Inr t)"

text \<open>Modelled from the spec: \<open>schemas\<close> (section 4.1) of the missing \<open>ToolRegistry\<close>
  gives the descriptors in registration order.\<close>

definition schemas :: "'e tool list \<Rightarrow> tool_descriptor list" where
  "schemas registry = map descriptor registry"

subsection \<open>Conversation state\<close>

text \<open>Modelled from the spec: the Conversation with its Context Budget (section 3) of
  the missing \<open>ConversationManager\<close>: the ordered transcript, the token ceiling and the
  model-name tag.\<close>

record conversation =
  messages :: "message list"
  token_ceiling :: nat
  model_name :: string

text \<open>Modelled from the spec: the invocation ids requested and answered in a
  transcript, for the matching invariant of section 3; part of the missing
  \<open>ConversationManager\<close>.\<close>

definition requested_ids :: "message list \<Rightarrow> string list" where
  "requested_ids ms = concat (map (\<lambda>m. map invocation_id (tool_calls m)) ms)"

text \<open>Modelled from the spec: the ids that tool-result messages of a transcript answer
  (section 3); part of the missing \<open>ConversationManager\<close>.\<close>

definition answered_ids :: "message list \<Rightarrow> string list" where
  "answered_ids ms =
     concat (map (\<lambda>m. case answers m of
                         Some i \<Rightarrow> if role m = ToolResult then [i] else []
                       | None \<Rightarrow> []) ms)"

text \<open>Modelled from the spec: an invocation is open when its id matches a request that
  appears in the transcript and has not been answered; no invocation id is answered
  twice (invariant of Message, section 3). Part of the missing \<open>ConversationManager\<close>.\<close>

definition open_invocation :: "message list \<Rightarrow> string \<Rightarrow> bool" where
  "open_invocation ms i \<longleftrightarrow> i \<in> set (requested_ids ms) \<and> i \<notin> set (answered_ids ms)"

text \<open>Modelled from the spec: \<open>append\<close> (section 4.2) of the missing
  \<open>ConversationManager\<close> adds a message to the tail and enforces the matching
  invariant: a tool-result with no matching open invocation fails with
  \<open>DanglingToolResult\<close>.\<close>

definition append_message :: "conversation \<Rightarrow> message \<Rightarrow> loop_error + conversation" where
  "append_message c m =
     (if role m = ToolResult then
        (case answers m of
           None \<Rightarrow> Inl DanglingToolResult
         | Some i \<Rightarrow>
             if open_invocation (messages c) i
             then Inr (c\<lparr>messages := messages c @ [m]\<rparr>)
             else Inl DanglingToolResult)
      else Inr (c\<lparr>messages := messages c @ [m]\<rparr>))"

text \<open>Modelled from the spec: the system message of a transcript is its first message,
  when that has the role \<open>system\<close> (invariant of Conversation, section 3); part of the
  missing \<open>ConversationManager\<close>.\<close>

definition system_part :: "message list \<Rightarrow> message list" where
  "system_part ms = (case ms of [] \<Rightarrow> [] | m # _ \<Rightarrow> if role m = System then [m] else [])"

text \<open>Modelled from the spec: the non-system messages of a transcript, the ones that
  trimming may evict (section 3); part of the missing \<open>ConversationManager\<close>.\<close>

definition evictable :: "message list \<Rightarrow> message list" where
  "evictable ms = (case ms of [] \<Rightarrow> [] | m # rest \<Rightarrow> if role m = System then rest else ms)"

text \<open>Modelled from the spec: a tool-call Message and a tool-result Message form a
  pair when the result answers one of the requests of the call (section 3); part of the
  missing \<open>ConversationManager\<close>.\<close>

definition answers_call :: "message \<Rightarrow> message \<Rightarrow> bool" where
  "answers_call r c \<longleftrightarrow>
     role r = ToolResult \<and>
     (case answers r of None \<Rightarrow> False
      | Some i \<Rightarrow> i \<in> set (map invocation_id (tool_calls c)))"

text \<open>Modelled from the spec: two messages are a pair whichever of them is the result
  (section 3); part of the missing \<open>ConversationManager\<close>.\<close>

definition paired :: "message \<Rightarrow> message \<Rightarrow> bool" where
  "paired x y \<longleftrightarrow> answers_call x y \<or> answers_call y x"

text \<open>Modelled from the spec: an eviction boundary \<open>k\<close> evicts the \<open>k\<close> oldest
  non-system messages; it splits a pair when one message of the pair is evicted and
  the other is kept (Context Budget, section 3). Part of the missing
  \<open>ConversationManager\<close>.\<close>

definition splits_pair :: "nat \<Rightarrow> message list \<Rightarrow> bool" where
  "splits_pair k ms \<longleftrightarrow> list_ex (\<lambda>x. list_ex (\<lambda>y. paired x y) (drop k ms)) (take k ms)"

text \<open>Modelled from the spec: the estimated cost of a transcript is the sum of the
  estimates of its messages, for the model-name tag (Context Budget, section 3); the
  estimator of the missing \<open>ConversationManager\<close> is the parameter \<open>estimate\<close>.\<close>

definition cost :: "(string \<Rightarrow> message \<Rightarrow> nat) \<Rightarrow> string \<Rightarrow> message list \<Rightarrow> nat" where
  "cost estimate model ms = sum_list (map (estimate model) ms)"

text \<open>Modelled from the spec: a boundary is admissible when it splits no pair and what
  is kept, with the system message, is within the token ceiling (section 3); part of
  the missing \<open>ConversationManager\<close>.\<close>

definition admissible :: "(string \<Rightarrow> message \<Rightarrow> nat) \<Rightarrow> conversation \<Rightarrow> nat \<Rightarrow> bool" where
  "admissible estimate c k \<longleftrightarrow>
     \<not> splits_pair k (evictable (messages c)) \<and>
     cost estimate (model_name c)
       (system_part (messages c) @ drop k (evictable (messages c))) \<le> token_ceiling c"

text \<open>Modelled from the spec: trimming evicts the oldest non-system messages first, so
  the boundary is the least admissible one; when none is admissible every non-system
  message is evicted, and the system message stays (sections 3 and 4.2). Part of the
  missing \<open>ConversationManager\<close>.\<close>

definition eviction_boundary :: "(string \<Rightarrow> message \<Rightarrow> nat) \<Rightarrow> conversation \<Rightarrow> nat" where
  "eviction_boundary estimate c =
     (case find (admissible estimate c) [0..<length (evictable (messages c))] of
        Some k \<Rightarrow> k
      | None \<Rightarrow> length (evictable (messages c)))"

text \<open>Modelled from the spec: \<open>snapshot\<close> (section 4.2) of the missing
  \<open>ConversationManager\<close> returns the transcript for transmission, with trimming
  applied; the stored transcript is not changed.\<close>

definition snapshot :: "(string \<Rightarrow> message \<Rightarrow> nat) \<Rightarrow> conversation \<Rightarrow> message list" where
  "snapshot estimate c =
     system_part (messages c) @ drop (eviction_boundary estimate c) (evictable (messages c))"

text \<open>Modelled from the spec: \<open>reset(keep_system)\<close> (section 4.2), which \<open>cli.py\<close>
  calls as \<open>reset_conversation(keep_system_prompt=True)\<close> on the missing
  \<open>ConversationManager\<close>: it clears the transcript and keeps the system message only
  when asked to.\<close>

definition reset :: "bool \<Rightarrow> conversation \<Rightarrow> conversation" where
  "reset keep_system c =
     c\<lparr>messages := (if keep_system then system_part (messages c) else [])\<rparr>"

subsection \<open>Model backend boundary\<close>

text \<open>Modelled from the spec: an atomic response of the Model Backend Boundary
  (sections 4.3, 6 and 7) of the missing \<open>LLMClient\<close>: a reply with its text and its
  ordered tool-call requests (it is final when it carries no request), or a failure
  of the communication with its description.\<close>

datatype response = Replied string "tool_call list" | BackendFailed string

text \<open>Modelled from the spec: a fragment of a streamed response (sections 4.4 and 6)
  of the missing \<open>LLMClient\<close>: plain text, or a part of a tool-call request with its
  invocation id, a part of the tool name, a part of the argument payload, and the
  signal that the request is complete.\<close>

datatype fragment = TextFragment string | CallFragment string string string bool

text \<open>Modelled from the spec: a streamed response (sections 4.4, 6 and 7) of the
  missing \<open>LLMClient\<close>: the fragments up to the end-of-reply marker, or the fragments
  received before the communication failed.\<close>

datatype stream = Stream "fragment list" | BrokenStream "fragment list" string

text \<open>Modelled from the spec: the text fragments of a streamed reply, in order
  (section 4.4); part of the missing \<open>StreamingToolOrchestrator\<close>.\<close>

fun text_fragments :: "fragment list \<Rightarrow> string list" where
  "text_fragments [] = []"
| "text_fragments (TextFragment t # fs) = t # text_fragments fs"
| "text_fragments (CallFragment i n a complete # fs) = text_fragments fs"

text \<open>Modelled from the spec: the buffer of the accumulating tool-call requests
  (section 4.4) of the missing \<open>StreamingToolOrchestrator\<close>: one entry per request, in
  the order in which the model issued the requests (the order of their first
  fragments), with the invocation id, the tool name and the argument payload received
  so far, and whether the backend has signalled that the request is complete. A
  fragment extends the request of its id that is still accumulating; when there is
  none it opens a new request at the end.\<close>

fun buffer_fragment ::
    "string \<Rightarrow> string \<Rightarrow> string \<Rightarrow> bool \<Rightarrow> (string \<times> string \<times> string \<times> bool) list \<Rightarrow>
     (string \<times> string \<times> string \<times> bool) list" where
  "buffer_fragment i n a finished [] = [(i, n, a, finished)]"
| "buffer_fragment i n a finished ((j, m, b, complete) # rest) =
     (if j = i \<and> \<not> complete then (j, m @ n, b @ a, finished) # rest
      else (j, m, b, complete) # buffer_fragment i n a finished rest)"

text \<open>Modelled from the spec: the fragments of a streamed reply are taken in the
  order they arrive; text is not buffered, parts of requests are (section 4.4). Part
  of the missing \<open>StreamingToolOrchestrator\<close>.\<close>

fun accumulate ::
    "fragment list \<Rightarrow> (string \<times> string \<times> string \<times> bool) list \<Rightarrow>
     (string \<times> string \<times> string \<times> bool) list" where
  "accumulate [] buffer = buffer"
| "accumulate (TextFragment t # fs) buffer = accumulate fs buffer"
| "accumulate (CallFragment i n a finished # fs) buffer =
     accumulate fs (buffer_fragment i n a finished buffer)"

text \<open>Modelled from the spec: the requests of a streamed reply that can be
  dispatched: those the backend completed, in the order the model issued them; a
  request that is never completed is not dispatched (sections 4.3 and 4.4). Part of the
  missing \<open>StreamingToolOrchestrator\<close>.\<close>

definition completed_calls :: "fragment list \<Rightarrow> tool_call list" where
  "completed_calls fs =
     map (\<lambda>(i, n, a, complete). \<lparr>invocation_id = i, tool_name = n, arguments = a\<rparr>)
       (filter (\<lambda>(i, n, a, complete). complete) (accumulate fs []))"

text \<open>Modelled from the spec: the atomic response that a streamed response amounts to
  (section 6): the concatenation of its text fragments and its completed requests.
  Two backends give identical replies when the atomic one returns this for what the
  streaming one delivers.\<close>

definition assemble :: "stream \<Rightarrow> response" where
  "assemble s =
     (case s of
        Stream fs \<Rightarrow> Replied (concat (text_fragments fs)) (completed_calls fs)
      | BrokenStream fs d \<Rightarrow> BackendFailed d)"

subsection \<open>Agent loop\<close>

text \<open>Modelled from the spec: what an agent loop owns (section 5): the Conversation
  State and the environment its tools act on; the orchestrators of \<open>tools/loop.py\<close> and
  \<open>tools/streaming.py\<close> are missing.\<close>

record 'e agent =
  conversation :: conversation
  environment :: 'e

text \<open>Modelled from the spec: what an orchestrator is configured with (sections 3 and
  4.3): the tool registry, the iteration ceiling on tool-dispatch cycles, and the
  estimator of token costs.\<close>

record 'e orchestrator =
  registry :: "'e tool list"
  max_cycles :: nat
  estimate :: "string \<Rightarrow> message \<Rightarrow> nat"

text \<open>Modelled from the spec: the user message that opens a turn (section 4.3);
  built by the missing orchestrators.\<close>

definition user_message :: "string \<Rightarrow> message" where
  "user_message t = \<lparr>role = User, content = t, tool_calls = [], answers = None\<rparr>"

text \<open>Modelled from the spec: the assistant message of a reply (section 4.3), with
  its text and the requests it carries; built by the missing orchestrators.\<close>

definition assistant_message :: "string \<Rightarrow> tool_call list \<Rightarrow> message" where
  "assistant_message t calls =
     \<lparr>role = Assistant, content = t, tool_calls = calls, answers = None\<rparr>"

text \<open>Modelled from the spec: the tool-result message a Tool Invocation Record is
  converted into (section 3); built by the missing orchestrators.\<close>

definition tool_result_message :: "string \<Rightarrow> tool_outcome \<Rightarrow> message" where
  "tool_result_message i outcome =
     \<lparr>role = ToolResult,
      content = (case outcome of Success payload \<Rightarrow> payload | Failure d \<Rightarrow> d),
      tool_calls = [], answers = Some i\<rparr>"

text \<open>Modelled from the spec: resolving a tool-call request (section 4.3): the tool is
  looked up and invoked; a resolution failure becomes a failure outcome with an error
  description instead of a fatal error.\<close>

definition resolve :: "'e tool list \<Rightarrow> tool_call \<Rightarrow> 'e \<Rightarrow> tool_outcome \<times> 'e" where
  "resolve reg call env =
     (case lookup reg (tool_name call) of
        Inl err \<Rightarrow> (Failure (''unknown tool: '' @ tool_name call), env)
      | Inr t \<Rightarrow> invoke t (arguments call) env)"

text \<open>Modelled from the spec: the state \<open>EXECUTING_TOOLS\<close> (section 4.3): the requests
  are resolved one at a time in the order the model issued them, and one tool-result
  is appended per request; a failing \<open>append\<close> is fatal and leaves the state as it
  stood after the last appended message (section 7).\<close>

fun dispatch :: "'e tool list \<Rightarrow> tool_call list \<Rightarrow> 'e agent \<Rightarrow> loop_error option \<times> 'e agent" where
  "dispatch reg [] st = (None, st)"
| "dispatch reg (call # calls) st =
     (case resolve reg call (environment st) of
        (outcome, env) \<Rightarrow>
          (case append_message (conversation st)
                  (tool_result_message (invocation_id call) outcome) of
             Inl err \<Rightarrow> (Some err, st\<lparr>environment := env\<rparr>)
           | Inr conv \<Rightarrow> dispatch reg calls (st\<lparr>conversation := conv, environment := env\<rparr>)))"

text \<open>Modelled from the spec: one tool-dispatch cycle (section 4.3): the assistant
  message carrying the requests is appended, then the requests are dispatched.\<close>

definition tool_cycle ::
    "'e tool list \<Rightarrow> string \<Rightarrow> tool_call list \<Rightarrow> 'e agent \<Rightarrow> loop_error option \<times> 'e agent" where
  "tool_cycle reg t calls st =
     (case append_message (conversation st) (assistant_message t calls) of
        Inl err \<Rightarrow> (Some err, st)
      | Inr conv \<Rightarrow> dispatch reg calls (st\<lparr>conversation := conv\<rparr>))"

text \<open>Modelled from the spec: the final state (section 4.3): the assistant message
  with the final text is appended.\<close>

definition finish :: "string \<Rightarrow> 'e agent \<Rightarrow> loop_error option \<times> 'e agent" where
  "finish t st =
     (case append_message (conversation st) (assistant_message t []) of
        Inl err \<Rightarrow> (Some err, st)
      | Inr conv \<Rightarrow> (None, st\<lparr>conversation := conv\<rparr>))"

text \<open>Modelled from the spec: the synchronous state machine (section 4.3) of the
  missing \<open>ToolOrchestrator.execute_loop\<close>. In \<open>AWAITING_MODEL\<close> the trimmed snapshot and
  the tool schemas go to the backend (given the number of cycles done so far); a reply
  without requests is final; a reply with requests starts a tool-dispatch cycle, unless
  the ceiling is reached, which fails with \<open>ToolLoopExceeded\<close> and leaves the
  transcript as it is. The first argument counts the cycles that remain.\<close>

fun cycles ::
    "'e orchestrator \<Rightarrow> (nat \<Rightarrow> message list \<Rightarrow> tool_descriptor list \<Rightarrow> response) \<Rightarrow>
     nat \<Rightarrow> nat \<Rightarrow> 'e agent \<Rightarrow> (loop_error + string) \<times> 'e agent" where
  "cycles orch backend remaining n st =
     (case backend n (snapshot (estimate orch) (conversation st)) (schemas (registry orch)) of
        BackendFailed d \<Rightarrow> (Inl (BackendFailure d n), st)
      | Replied t calls \<Rightarrow>
          if calls = [] then
            (case finish t st of
               (Some err, st') \<Rightarrow> (Inl err, st')
             | (None, st') \<Rightarrow> (Inr t, st'))
          else
            (case remaining of
               0 \<Rightarrow> (Inl ToolLoopExceeded, st)
             | Suc r \<Rightarrow>
                 (case tool_cycle (registry orch) t calls st of
                    (Some err, st') \<Rightarrow> (Inl err, st')
                  | (None, st') \<Rightarrow> cycles orch backend r (Suc n) st')))"

declare cycles.simps [simp del]

text \<open>Modelled from the spec: \<open>run(user_text)\<close> (sections 4.3 and 6), the missing
  \<open>ToolOrchestrator.execute_loop\<close> that \<open>cli.py\<close> calls: the user message is appended
  and the state machine runs with the configured ceiling.\<close>

definition run ::
    "'e orchestrator \<Rightarrow> (nat \<Rightarrow> message list \<Rightarrow> tool_descriptor list \<Rightarrow> response) \<Rightarrow>
     string \<Rightarrow> 'e agent \<Rightarrow> (loop_error + string) \<times> 'e agent" where
  "run orch backend user_text st =
     (case append_message (conversation st) (user_message user_text) of
        Inl err \<Rightarrow> (Inl err, st)
      | Inr conv \<Rightarrow> cycles orch backend (max_cycles orch) 0 (st\<lparr>conversation := conv\<rparr>))"

text \<open>Modelled from the spec: the streaming state machine (section 4.4) of the missing
  \<open>StreamingToolOrchestrator.execute_streaming_loop\<close>. Text fragments are forwarded to
  the caller in the order they arrive; completed tool-call requests are dispatched as
  in the synchronous loop, without yielding fragments; the same ceiling and failure
  policy apply. The result is the sequence of fragments yielded, the error if the turn
  failed, and the state.\<close>

fun streaming_cycles ::
    "'e orchestrator \<Rightarrow> (nat \<Rightarrow> message list \<Rightarrow> tool_descriptor list \<Rightarrow> stream) \<Rightarrow>
     nat \<Rightarrow> nat \<Rightarrow> 'e agent \<Rightarrow> string list \<times> loop_error option \<times> 'e agent" where
  "streaming_cycles orch backend remaining n st =
     (case backend n (snapshot (estimate orch) (conversation st)) (schemas (registry orch)) of
        BrokenStream fs d \<Rightarrow> (text_fragments fs, Some (BackendFailure d n), st)
      | Stream fs \<Rightarrow>
          if completed_calls fs = [] then
            (case finish (concat (text_fragments fs)) st of
               (err, st') \<Rightarrow> (text_fragments fs, err, st'))
          else
            (case remaining of
               0 \<Rightarrow> (text_fragments fs, Some ToolLoopExceeded, st)
             | Suc r \<Rightarrow>
                 (case tool_cycle (registry orch) (concat (text_fragments fs))
                         (completed_calls fs) st of
                    (Some err, st') \<Rightarrow> (text_fragments fs, Some err, st')
                  | (None, st') \<Rightarrow>
                      (case streaming_cycles orch backend r (Suc n) st' of
                         (out, res) \<Rightarrow> (text_fragments fs @ out, res)))))"

declare streaming_cycles.simps [simp del]

text \<open>Modelled from the spec: \<open>run_streaming(user_text)\<close> (sections 4.4 and 6), the
  missing \<open>StreamingToolOrchestrator.execute_streaming_loop\<close> that \<open>cli.py\<close> iterates
  over.\<close>

definition run_streaming ::
    "'e orchestrator \<Rightarrow> (nat \<Rightarrow> message list \<Rightarrow> tool_descriptor list \<Rightarrow> stream) \<Rightarrow>
     string \<Rightarrow> 'e agent \<Rightarrow> string list \<times> loop_error option \<times> 'e agent" where
  "run_streaming orch backend user_text st =
     (case append_message (conversation st) (user_message user_text) of
        Inl err \<Rightarrow> ([], Some err, st)
      | Inr conv \<Rightarrow>
          streaming_cycles orch backend (max_cycles orch) 0 (st\<lparr>conversation := conv\<rparr>))"

section \<open>Auxiliary definitions for the proofs about the configuration layer\<close>

text \<open>The three prompts of the wizard are instances of one loop: ask until the line
  is accepted. The instances are proved equal to the functions above.\<close>

function prompt_until :: "(pystr \<Rightarrow> 'a option) \<Rightarrow> world \<Rightarrow> (exception + 'a) \<times> world" where
  "prompt_until accept w =
     (case input w of
        (Inl e, w') \<Rightarrow> (Inl e, w')
      | (Inr line, w') \<Rightarrow>
          (case accept line of Some v \<Rightarrow> (Inr v, w') | None \<Rightarrow> prompt_until accept w'))"
  by pat_completeness auto
termination
  by (relation "measure (\<lambda>(accept, w). length (stdin w))")
     (auto simp: input_def split: list.splits stdin_event.splits)

declare prompt_until.simps [simp del]

text \<open>The model a line selects in \<open>get_model_choice\<close>, if it selects one.\<close>

definition model_at :: "(pystr \<Rightarrow> int option) \<Rightarrow> pystr \<Rightarrow> pystr \<Rightarrow> pystr option" where
  "model_at int_of provider line =
     (case int_of line of
        Some choice \<Rightarrow>
          if 1 \<le> choice \<and> choice \<le> int (length (provider_models provider))
          then Some (provider_models provider ! nat (choice - 1)) else None
      | None \<Rightarrow> None)"

text \<open>An instance of \<open>int_of\<close> for the examples: decimal numerals in ASCII digits,
  with surrounding white space (\<open>int\<close> accepts more: a sign, underscores, the other
  decimal digits of Unicode).\<close>

definition ascii_int :: "pystr \<Rightarrow> int option" where
  "ascii_int s =
     (let t = strip s in
      if t \<noteq> [] \<and> list_all (\<lambda>c. 48 \<le> c \<and> c \<le> 57) t
      then Some (int (foldl (\<lambda>n c. 10 * n + (c - 48)) 0 t)) else None)"

text \<open>A directory without configuration, an empty environment, and the given
  standard input.\<close>

definition fresh_world :: "stdin_event list \<Rightarrow> world" where
  "fresh_world evs =
     \<lparr>env_file = Missing, config_dir = NoTurtle, stdin = evs, prompts = 0, environ = Map.empty\<rparr>"

text \<open>An environment that holds a complete configuration, and a command line
  without options.\<close>

definition configured_environ :: "pystr \<rightharpoonup> pystr" where
  "configured_environ =
     [py ''TURTLE_PROVIDER'' \<mapsto> py ''openai'', py ''TURTLE_MODEL'' \<mapsto> py ''gpt-4'',
      py ''TURTLE_API_KEY'' \<mapsto> py ''sk-1'']"

definition no_args :: args where
  "no_args =
     \<lparr>args_prompt = None, args_setup = False, args_provider = None, args_model = None,
      args_api_key = None, args_stream = False, args_verbose = False,
      args_system_prompt = None\<rparr>"

text \<open>The assignments that the lines of \<open>.env\<close> denote, in the order of the file: a
  line that is not blank and does not begin with \<open>#\<close> is split at its first \<open>=\<close>.\<close>

fun dotenv_entries :: "pystr list \<Rightarrow> (pystr \<times> pystr) list" where
  "dotenv_entries [] = []"
| "dotenv_entries (line # rest) =
     (if strip line \<noteq> [] \<and> \<not> startswith line (py ''#'')
      then (takeWhile (\<lambda>c. c \<noteq> EQUALS) (strip line),
            tl (dropWhile (\<lambda>c. c \<noteq> EQUALS) (strip line))) # dotenv_entries rest
      else dotenv_entries rest)"

text \<open>Assignments overwrite an environment one after the other.\<close>

fun overwrite :: "(pystr \<times> pystr) list \<Rightarrow> (pystr \<rightharpoonup> pystr) \<Rightarrow> (pystr \<rightharpoonup> pystr)" where
  "overwrite [] env = env"
| "overwrite ((key, v) # rest) env = overwrite rest (env(key \<mapsto> v))"

text \<open>Whether the assignment that a line of \<open>.env\<close> denotes is refused: the line has no
  \<open>=\<close>, or the name before the \<open>=\<close> is empty, or the line holds a NUL character.\<close>

definition refused :: "pystr \<Rightarrow> bool" where
  "refused line \<longleftrightarrow>
     strip line \<noteq> [] \<and> \<not> startswith line (py ''#'') \<and>
     (EQUALS \<notin> set line \<or> startswith (strip line) (py ''='') \<or> NUL \<in> set line)"

text \<open>Values for the examples: an API key with a NUL character in it, a model name with
  a carriage return in it, the text of a \<open>.env\<close> file, and the answers typed into the
  wizard.\<close>

definition key_with_nul :: pystr where
  "key_with_nul = py ''sk'' @ [NUL] @ py ''1''"

definition model_with_cr :: pystr where
  "model_with_cr = py ''gpt'' @ [CR] @ py ''4''"

definition example_dotenv :: pystr where
  "example_dotenv =
     py ''# c'' @ [LF] @ py ''TURTLE_PROVIDER=gemini'' @ [CR, LF, LF] @ py ''TURTLE_API_KEY=a=b''"

definition example_answers :: "stdin_event list" where
  "example_answers =
     [Line (py ''5''), Line (py '' 2 ''), Line (py ''x''), Line (py ''1''), Line [],
      Line (py '' key '')]"

section \<open>Auxiliary definitions for the proofs about the agent loop\<close>

text \<open>The tool-result messages that the requests of a reply call for: one per
  request, in the order of the requests, each answering the invocation id of its
  request with the outcome of resolving it; the environment is threaded through the
  invocations as \<open>dispatch\<close> does.\<close>

fun tool_results :: "'e tool list \<Rightarrow> tool_call list \<Rightarrow> 'e \<Rightarrow> message list" where
  "tool_results reg [] env = []"
| "tool_results reg (call # calls) env =
     (case resolve reg call env of
        (outcome, env') \<Rightarrow>
          tool_result_message (invocation_id call) outcome # tool_results reg calls env')"

text \<open>Values for the examples: an estimator that counts the characters of a message, a
  transcript with a system message and a tool-call pair, an agent with an empty
  transcript, a tool that fails, replies with two requests (with distinct ids, and with
  the same id), and backends (one that numbers its requests, one that repeats the same
  request, one that streams a greeting).\<close>

definition by_length :: "string \<Rightarrow> message \<Rightarrow> nat" where
  "by_length model m = length (content m)"

definition read_call :: tool_call where
  "read_call = \<lparr>invocation_id = ''a'', tool_name = ''read_file'', arguments = ''notes.txt''\<rparr>"

definition example_transcript :: "message list" where
  "example_transcript =
     [\<lparr>role = System, content = ''sys'', tool_calls = [], answers = None\<rparr>,
      user_message ''hello'',
      assistant_message [] [read_call],
      tool_result_message ''a'' (Success ''four''),
      user_message ''ok'']"

definition example_conversation :: conversation where
  "example_conversation =
     \<lparr>messages = example_transcript, token_ceiling = 8, model_name = ''gpt-4''\<rparr>"

definition idle_agent :: "unit agent" where
  "idle_agent =
     \<lparr>conversation = \<lparr>messages = [], token_ceiling = 100, model_name = ''gpt-4''\<rparr>,
      environment = ()\<rparr>"

definition missing_file_tool :: "unit tool" where
  "missing_file_tool =
     \<lparr>descriptor =
        \<lparr>descriptor_name = ''read_file'', description = ''Read a file'', schema = ''path''\<rparr>,
      invoke = (\<lambda>path env. (Failure ''no such file'', env))\<rparr>"

definition same_id_calls :: "tool_call list" where
  "same_id_calls = [read_call, read_call\<lparr>arguments := ''b.txt''\<rparr>]"

definition two_calls :: "tool_call list" where
  "two_calls = [read_call, \<lparr>invocation_id = ''b'', tool_name = ''write_file'', arguments = ''x''\<rparr>]"

definition tool_orchestrator :: "unit orchestrator" where
  "tool_orchestrator = \<lparr>registry = [missing_file_tool], max_cycles = 2, estimate = by_length\<rparr>"

definition counting_backend :: "nat \<Rightarrow> message list \<Rightarrow> tool_descriptor list \<Rightarrow> response" where
  "counting_backend n snap tools =
     Replied [] [\<lparr>invocation_id = replicate (Suc n) CHR ''i'', tool_name = ''read_file'',
                  arguments = ''notes.txt''\<rparr>]"

definition repeating_backend :: "nat \<Rightarrow> message list \<Rightarrow> tool_descriptor list \<Rightarrow> response" where
  "repeating_backend n snap tools = Replied [] [read_call]"

definition greeting_stream :: "nat \<Rightarrow> message list \<Rightarrow> tool_descriptor list \<Rightarrow> stream" where
  "greeting_stream n snap tools = Stream [TextFragment ''Hel'', TextFragment ''lo'']"

definition greeting_backend :: "nat \<Rightarrow> message list \<Rightarrow> tool_descriptor list \<Rightarrow> response" where
  "greeting_backend n snap tools = assemble (greeting_stream n snap tools)"


text \<open>The messages of one completed tool-dispatch cycle: the assistant message with the
  text and the requests of the reply, followed by the tool-result of every request, in
  the order of the requests. A cycle is given by the text and the requests of the reply
  and the environment in which the dispatch started.\<close>

definition cycle_messages :: "'e tool list \<Rightarrow> string \<times> tool_call list \<times> 'e \<Rightarrow> message list" where
  "cycle_messages reg = (\<lambda>(t, calls, env). assistant_message t calls # tool_results reg calls env)"

text \<open>The order in which a streamed reply issues its requests: the invocation ids of
  the tool-call fragments (\<open>call_ids\<close>), the ids in the order of their first fragment
  (\<open>first_ids\<close>), and the ids that the backend signals complete (\<open>finished_ids\<close>). In a
  stream that \<open>closes_once\<close> no id receives a fragment after the fragment that completes
  it.\<close>

fun call_ids :: "fragment list \<Rightarrow> string list" where
  "call_ids [] = []"
| "call_ids (TextFragment t # fs) = call_ids fs"
| "call_ids (CallFragment i n a finished # fs) = i # call_ids fs"

fun first_ids :: "fragment list \<Rightarrow> string list" where
  "first_ids [] = []"
| "first_ids (TextFragment t # fs) = first_ids fs"
| "first_ids (CallFragment i n a finished # fs) = i # filter (\<lambda>j. j \<noteq> i) (first_ids fs)"

fun finished_ids :: "fragment list \<Rightarrow> string list" where
  "finished_ids [] = []"
| "finished_ids (TextFragment t # fs) = finished_ids fs"
| "finished_ids (CallFragment i n a finished # fs) =
     (if finished then i # finished_ids fs else finished_ids fs)"

fun closes_once :: "fragment list \<Rightarrow> bool" where
  "closes_once [] = True"
| "closes_once (TextFragment t # fs) = closes_once fs"
| "closes_once (CallFragment i n a finished # fs) =
     ((finished \<longrightarrow> i \<notin> set (call_ids fs)) \<and> closes_once fs)"

text \<open>Whether the buffer of a streamed reply holds a request of the given id that is
  still accumulating, and whether it holds one that is complete.\<close>

fun open_in :: "string \<Rightarrow> (string \<times> string \<times> string \<times> bool) list \<Rightarrow> bool" where
  "open_in i [] = False"
| "open_in i ((j, m, b, complete) # rest) = (j = i \<and> \<not> complete \<or> open_in i rest)"

fun complete_in :: "string \<Rightarrow> (string \<times> string \<times> string \<times> bool) list \<Rightarrow> bool" where
  "complete_in i [] = False"
| "complete_in i ((j, m, b, complete) # rest) = (j = i \<and> complete \<or> complete_in i rest)"

text \<open>More values for the examples: a backend that first requests two tools and then
  answers, one whose reply uses an invocation id twice, a streaming backend whose first
  reply interleaves the fragments of the same two requests (the second request is
  complete before the first), and an orchestrator whose ceiling is zero cycles.\<close>

definition two_then_final :: "nat \<Rightarrow> message list \<Rightarrow> tool_descriptor list \<Rightarrow> response" where
  "two_then_final n snap tools = (if n = 0 then Replied [] two_calls else Replied ''done'' [])"

definition same_id_backend :: "nat \<Rightarrow> message list \<Rightarrow> tool_descriptor list \<Rightarrow> response" where
  "same_id_backend n snap tools = Replied [] same_id_calls"

definition interleaved_fragments :: "fragment list" where
  "interleaved_fragments =
     [CallFragment ''a'' ''read_'' ''no'' False,
      CallFragment ''b'' ''write_file'' ''x'' True,
      CallFragment ''a'' ''file'' ''tes.txt'' True]"

definition interleaved_stream :: "nat \<Rightarrow> message list \<Rightarrow> tool_descriptor list \<Rightarrow> stream" where
  "interleaved_stream n snap tools =
     (if n = 0 then Stream interleaved_fragments else Stream [TextFragment ''done''])"

definition no_cycles_orchestrator :: "unit orchestrator" where
  "no_cycles_orchestrator = tool_orchestrator\<lparr>max_cycles := 0\<rparr>"
section \<open>The prompts of the wizard\<close>

lemma get_provider_choice_prompt_until:
  "get_provider_choice w = prompt_until (\<lambda>choice. providers (strip choice)) w"
proof (induction w rule: get_provider_choice.induct)
  case (1 w)
  show ?case
    by (subst get_provider_choice.simps, subst prompt_until.simps)
       (auto split: prod.splits sum.splits option.splits dest: "1.IH" [OF sym])
qed

lemma get_model_choice_prompt_until:
  "get_model_choice int_of provider w = prompt_until (model_at int_of provider) w"
proof (induction int_of provider w rule: get_model_choice.induct)
  case (1 int_of provider w)
  show ?case
    by (subst get_model_choice.simps, subst prompt_until.simps)
       (auto simp: model_at_def split: prod.splits sum.splits option.splits
          dest: "1.IH"(1) [OF sym] "1.IH"(2) [OF sym])
qed

lemma get_api_key_prompt_until:
  "get_api_key provider w =
     prompt_until (\<lambda>line. if strip line \<noteq> [] then Some (strip line) else None) w"
proof (induction provider w rule: get_api_key.induct)
  case (1 provider w)
  show ?case
    by (subst get_api_key.simps, subst prompt_until.simps)
       (auto split: prod.splits sum.splits option.splits dest: "1.IH" [OF sym])
qed

text \<open>A prompt returns a value exactly when standard input holds rejected lines
  followed by an accepted one; it consumes them and nothing more.\<close>

lemma prompt_until_accepts:
  "prompt_until accept w = (Inr v, w') \<longleftrightarrow>
     (\<exists>bad good rest.
        stdin w = map Line bad @ Line good # rest \<and> (\<forall>b\<in>set bad. accept b = None) \<and>
        accept good = Some v \<and>
        w' = w\<lparr>stdin := rest, prompts := prompts w + length bad + 1\<rparr>)"
  (is "?lhs w \<longleftrightarrow> ?rhs w")
proof (induction "stdin w" arbitrary: w)
  case Nil
  then show ?case
    by (subst prompt_until.simps) (auto simp: input_def dest: sym)
next
  case (Cons ev evs)
  from Cons.hyps(2) have sw: "stdin w = ev # evs" by simp
  show ?case
  proof (cases ev)
    case Interrupt
    have "\<not> ?lhs w"
      using sw Interrupt by (subst prompt_until.simps) (simp add: input_def)
    moreover have "\<not> ?rhs w"
    proof
      assume "?rhs w"
      then obtain bad good rest where "stdin w = map Line bad @ Line good # rest" by blast
      with sw Interrupt show False by (cases bad) auto
    qed
    ultimately show ?thesis by blast
  next
    case (Line s)
    let ?w1 = "w\<lparr>stdin := evs, prompts := Suc (prompts w)\<rparr>"
    have inp: "input w = (Inr s, ?w1)" using sw Line by (simp add: input_def)
    show ?thesis
    proof (cases "accept s")
      case (Some u)
      have run: "prompt_until accept w = (Inr u, ?w1)"
        by (subst prompt_until.simps) (simp add: inp Some)
      have "?rhs w \<longleftrightarrow> u = v \<and> w' = ?w1"
      proof
        assume "?rhs w"
        then obtain bad good rest where d: "stdin w = map Line bad @ Line good # rest"
          "\<forall>b\<in>set bad. accept b = None" "accept good = Some v"
          "w' = w\<lparr>stdin := rest, prompts := prompts w + length bad + 1\<rparr>" by blast
        with sw Line Some show "u = v \<and> w' = ?w1" by (cases bad) auto
      next
        assume a: "u = v \<and> w' = ?w1"
        show "?rhs w"
          by (rule exI [of _ "[]"], rule exI [of _ s], rule exI [of _ evs])
             (use a sw Line Some in simp)
      qed
      with run show ?thesis by auto
    next
      case None
      have step: "prompt_until accept w = prompt_until accept ?w1"
        by (subst prompt_until.simps) (simp add: inp None)
      have evs: "evs = stdin ?w1" by simp
      have "?rhs ?w1 \<longleftrightarrow> ?rhs w"
      proof
        assume "?rhs ?w1"
        then obtain bad good rest where d: "evs = map Line bad @ Line good # rest"
          "\<forall>b\<in>set bad. accept b = None" "accept good = Some v"
          "w' = ?w1\<lparr>stdin := rest, prompts := prompts ?w1 + length bad + 1\<rparr>" by auto
        show "?rhs w"
          by (rule exI [of _ "s # bad"], rule exI [of _ good], rule exI [of _ rest])
             (use d sw Line None in simp)
      next
        assume "?rhs w"
        then obtain bad good rest where d: "stdin w = map Line bad @ Line good # rest"
          "\<forall>b\<in>set bad. accept b = None" "accept good = Some v"
          "w' = w\<lparr>stdin := rest, prompts := prompts w + length bad + 1\<rparr>" by blast
        obtain bs where bad: "bad = s # bs"
          using d sw Line None by (cases bad) auto
        show "?rhs ?w1"
          by (rule exI [of _ bs], rule exI [of _ good], rule exI [of _ rest])
             (use d sw bad in simp)
      qed
      with Cons.hyps(1) [OF evs] step show ?thesis by simp
    qed
  qed
qed

lemma prompt_until_frame:
  "prompt_until accept w = (r, w') \<Longrightarrow>
     env_file w' = env_file w \<and> config_dir w' = config_dir w \<and> environ w' = environ w"
proof (induction accept w rule: prompt_until.induct)
  case (1 accept w)
  from "1.prems" show ?case
    by (subst (asm) prompt_until.simps)
       (auto simp: input_def split: list.splits stdin_event.splits option.splits
          dest!: "1.IH" [rotated 2])
qed

lemma get_provider_choice_frame:
  "get_provider_choice w = (r, w') \<Longrightarrow>
     env_file w' = env_file w \<and> config_dir w' = config_dir w \<and> environ w' = environ w"
  by (simp add: get_provider_choice_prompt_until prompt_until_frame)

lemma get_model_choice_frame:
  "get_model_choice int_of p w = (r, w') \<Longrightarrow>
     env_file w' = env_file w \<and> config_dir w' = config_dir w \<and> environ w' = environ w"
  by (simp add: get_model_choice_prompt_until prompt_until_frame)

lemma get_api_key_frame:
  "get_api_key p w = (r, w') \<Longrightarrow>
     env_file w' = env_file w \<and> config_dir w' = config_dir w \<and> environ w' = environ w"
  by (simp add: get_api_key_prompt_until prompt_until_frame)

lemma providers_Some:
  "providers c = Some p \<Longrightarrow>
     p \<in> {py ''openai'', py ''anthropic'', py ''gemini''} \<and> c \<in> {py ''1'', py ''2'', py ''3''}"
  by (auto simp: providers_def split: if_splits)

lemma providers_nonempty: "providers c = Some p \<Longrightarrow> p \<noteq> []"
  by (auto simp: providers_def py_def split: if_splits)

lemma provider_models_nonempty: "m \<in> set (provider_models p) \<Longrightarrow> m \<noteq> []"
  by (auto simp: provider_models_def models_def py_def split: option.splits if_splits)

lemma model_at_Some:
  "model_at int_of p line = Some m \<longleftrightarrow>
     (\<exists>i. int_of line = Some i \<and> 1 \<le> i \<and> i \<le> int (length (provider_models p)) \<and>
          m = provider_models p ! nat (i - 1))"
  by (auto simp: model_at_def split: option.splits)

lemma model_at_in_list: "model_at int_of p line = Some m \<Longrightarrow> m \<in> set (provider_models p)"
  by (auto simp: model_at_Some)

section \<open>Persisting the configuration\<close>

lemma encodable_append [simp]: "encodable (a @ b) \<longleftrightarrow> encodable a \<and> encodable b"
  by (simp add: encodable_def)

lemma encodable_Cons [simp]: "encodable (c # s) \<longleftrightarrow> (c < 55296 \<or> 57343 < c) \<and> encodable s"
  by (simp add: encodable_def)

lemma encodable_Nil [simp]: "encodable []"
  by (simp add: encodable_def)

lemma encodable_py [simp]: "encodable (py s)"
proof (induction s)
  case Nil
  show ?case by (simp add: py_def)
next
  case (Cons c s)
  have "of_char c < (55296 :: nat)"
    using nat_of_char_less_256 [of c] by linarith
  with Cons show ?case by (simp add: py_def)
qed

lemma encodable_env_content [simp]:
  "encodable (env_content p m k) \<longleftrightarrow> encodable p \<and> encodable m \<and> encodable k"
  by (simp add: env_content_def)

lemma handle_exception_world: "handle_exception e w = (r, w') \<Longrightarrow> w' = w \<and> r \<noteq> Returned True"
  by (auto simp: handle_exception_def split: if_splits)

lemma save_configuration_keeps_files:
  assumes "save_configuration p m k w = (r, w')"
  shows "(env_file_exists w \<longrightarrow> env_file_exists w') \<and>
         (config_file_exists w \<longrightarrow> config_file_exists w')"
  using assms
  by (auto simp: save_configuration_def write_env_file_def mkdir_config_dir_def
      write_config_file_def env_file_exists_def config_file_exists_def
      split: entry.splits turtle_dir.splits if_splits)

lemma save_configuration_success:
  assumes "save_configuration p m k w = (Inr u, w')"
  shows "env_file w' = Regular (env_content p m k) \<and>
         config_dir w' = TurtleDir (Regular (config_data p m)) \<and>
         stdin w' = stdin w \<and> prompts w' = prompts w \<and> environ w' = environ w"
  using assms
  by (auto simp: save_configuration_def write_env_file_def mkdir_config_dir_def
      write_config_file_def split: entry.splits turtle_dir.splits if_splits)

lemma collected_valid:
  assumes "get_provider_choice w = (Inr provider, w1)"
    "get_model_choice int_of provider w1 = (Inr model, w2)"
    "get_api_key provider w2 = (Inr api_key, w3)"
  shows "wizard_validate_config provider model api_key"
proof -
  from assms(1) have "provider \<noteq> []"
    by (auto simp: get_provider_choice_prompt_until prompt_until_accepts
        dest: providers_nonempty)
  moreover from assms(2) have "model \<noteq> []"
    by (auto simp: get_model_choice_prompt_until prompt_until_accepts
        dest!: model_at_in_list provider_models_nonempty)
  moreover from assms(3) have "api_key \<noteq> []"
    by (auto simp: get_api_key_prompt_until prompt_until_accepts split: if_splits)
  ultimately show ?thesis by (simp add: wizard_validate_config_def)
qed

lemma force_setup_True:
  "force_setup int_of w = (Returned True, w') \<longleftrightarrow>
     (\<exists>provider model api_key w1 w2 w3.
        get_provider_choice w = (Inr provider, w1) \<and>
        get_model_choice int_of provider w1 = (Inr model, w2) \<and>
        get_api_key provider w2 = (Inr api_key, w3) \<and>
        wizard_validate_config provider model api_key \<and>
        save_configuration provider model api_key w3 = (Inr (), w'))"
  unfolding force_setup_def
  by (auto split: prod.splits sum.splits if_splits dest: handle_exception_world)

lemma force_setup_writes_late:
  assumes run: "force_setup int_of w = (out, w')"
    and changed: "env_file w' \<noteq> env_file w \<or> config_dir w' \<noteq> config_dir w"
  shows "\<exists>provider model api_key w1 w2 w3.
        get_provider_choice w = (Inr provider, w1) \<and>
        get_model_choice int_of provider w1 = (Inr model, w2) \<and>
        get_api_key provider w2 = (Inr api_key, w3) \<and>
        wizard_validate_config provider model api_key \<and>
        w' = snd (save_configuration provider model api_key w3)"
proof -
  obtain r1 w1 where g1: "get_provider_choice w = (r1, w1)" by force
  note f1 = get_provider_choice_frame [OF g1]
  show ?thesis
  proof (cases r1)
    case (Inl e)
    with run g1 f1 changed show ?thesis
      by (auto simp: force_setup_def dest: handle_exception_world)
  next
    case p: (Inr provider)
    obtain r2 w2 where g2: "get_model_choice int_of provider w1 = (r2, w2)" by force
    note f2 = get_model_choice_frame [OF g2]
    show ?thesis
    proof (cases r2)
      case (Inl e)
      with run g1 p g2 f1 f2 changed show ?thesis
        by (auto simp: force_setup_def dest: handle_exception_world)
    next
      case m: (Inr model)
      obtain r3 w3 where g3: "get_api_key provider w2 = (r3, w3)" by force
      note f3 = get_api_key_frame [OF g3]
      show ?thesis
      proof (cases r3)
        case (Inl e)
        with run g1 p g2 m g3 f1 f2 f3 changed show ?thesis
          by (auto simp: force_setup_def dest: handle_exception_world)
      next
        case k: (Inr api_key)
        have valid: "wizard_validate_config provider model api_key"
          using collected_valid g1 g2 g3 p m k by simp
        have "w' = snd (save_configuration provider model api_key w3)"
          using run g1 p g2 m g3 k valid
          by (auto simp: force_setup_def split: prod.splits sum.splits
              dest: handle_exception_world)
        with g1 p g2 m g3 k valid show ?thesis by blast
      qed
    qed
  qed
qed

lemma run_setup_force_setup:
  "run_setup int_of w = (if is_first_run w then force_setup int_of w else (Returned False, w))"
  by (simp add: run_setup_def force_setup_def)

lemma force_setup_keeps_files:
  assumes "force_setup int_of w = (out, w')"
  shows "(env_file_exists w \<longrightarrow> env_file_exists w') \<and>
         (config_file_exists w \<longrightarrow> config_file_exists w')"
proof (cases "env_file w' \<noteq> env_file w \<or> config_dir w' \<noteq> config_dir w")
  case False
  then show ?thesis by (simp add: env_file_exists_def config_file_exists_def)
next
  case True
  from force_setup_writes_late [OF assms True] obtain provider model api_key w1 w2 w3 where
    c: "get_provider_choice w = (Inr provider, w1)"
       "get_model_choice int_of provider w1 = (Inr model, w2)"
       "get_api_key provider w2 = (Inr api_key, w3)"
       "w' = snd (save_configuration provider model api_key w3)" by blast
  have "env_file w3 = env_file w \<and> config_dir w3 = config_dir w"
    using get_provider_choice_frame [OF c(1)] get_model_choice_frame [OF c(2)]
      get_api_key_frame [OF c(3)] by simp
  then have "env_file_exists w3 = env_file_exists w"
    "config_file_exists w3 = config_file_exists w"
    by (simp_all add: env_file_exists_def config_file_exists_def)
  moreover obtain r where "save_configuration provider model api_key w3 = (r, w')"
    using c(4) by (cases "save_configuration provider model api_key w3") simp
  ultimately show ?thesis using save_configuration_keeps_files by blast
qed

lemma load_config_frame:
  "load_config w = (r, w') \<Longrightarrow>
     env_file w' = env_file w \<and> config_dir w' = config_dir w \<and> stdin w' = stdin w \<and>
     prompts w' = prompts w"
  by (auto simp: load_config_def split: prod.splits option.splits if_splits entry.splits)

lemma main_keeps_files:
  assumes "main int_of a w = (out, w')"
  shows "(env_file_exists w \<longrightarrow> env_file_exists w') \<and>
         (config_file_exists w \<longrightarrow> config_file_exists w')"
proof (cases "args_setup a")
  case True
  obtain r w1 where f: "force_setup int_of w = (r, w1)" by force
  with assms True have "w' = w1"
    by (auto simp: main_def run_forced_setup_def split: setup_outcome.splits)
  with force_setup_keeps_files [OF f] show ?thesis by simp
next
  case False
  obtain r w1 where l: "load_config w = (r, w1)" by force
  with assms False have "w' = w1"
    by (auto simp: main_def Let_def split: sum.splits if_splits)
  with load_config_frame [OF l] show ?thesis
    by (simp add: env_file_exists_def config_file_exists_def)
qed

section \<open>Strings and the lines of \<open>.env\<close>\<close>

lemma in_set_dropWhile: "x \<in> set xs \<Longrightarrow> \<not> P x \<Longrightarrow> x \<in> set (dropWhile P xs)"
  by (induction xs) auto

lemma strip_mem: "\<not> isspace c \<Longrightarrow> c \<in> set (strip s) \<longleftrightarrow> c \<in> set s"
proof
  assume "c \<in> set (strip s)"
  then show "c \<in> set s"
    by (auto simp: strip_def lstrip_def rstrip_def dest!: set_dropWhileD)
next
  assume "\<not> isspace c" "c \<in> set s"
  then show "c \<in> set (strip s)"
    by (simp add: strip_def lstrip_def rstrip_def in_set_dropWhile)
qed

lemma not_isspace_EQUALS [simp]: "\<not> isspace EQUALS" and not_isspace_NUL [simp]: "\<not> isspace NUL"
  by (simp_all add: isspace_def)

lemma isspace_LF [simp]: "isspace LF"
  by (simp add: isspace_def)

lemma split1_cases:
  "split1 s sep =
     (if sep \<in> set s then [takeWhile (\<lambda>c. c \<noteq> sep) s, tl (dropWhile (\<lambda>c. c \<noteq> sep) s)] else [s])"
  by (simp add: split1_def)

lemma split_at_sep:
  assumes "sep \<in> set s"
  shows "s = takeWhile (\<lambda>c. c \<noteq> sep) s @ sep # tl (dropWhile (\<lambda>c. c \<noteq> sep) s)"
proof -
  from assms have "dropWhile (\<lambda>c. c \<noteq> sep) s \<noteq> []" by (simp add: dropWhile_eq_Nil_conv)
  moreover from this have "hd (dropWhile (\<lambda>c. c \<noteq> sep) s) = sep"
    using hd_dropWhile [of "\<lambda>c. c \<noteq> sep" s] by simp
  ultimately have "dropWhile (\<lambda>c. c \<noteq> sep) s = sep # tl (dropWhile (\<lambda>c. c \<noteq> sep) s)"
    by (cases "dropWhile (\<lambda>c. c \<noteq> sep) s") auto
  then show ?thesis using takeWhile_dropWhile_id [of "\<lambda>c. c \<noteq> sep" s] by simp
qed

lemma takeWhile_no_sep: "sep \<notin> set (takeWhile (\<lambda>c. c \<noteq> sep) s)"
  by (auto dest: set_takeWhileD)

lemma startswith_char: "startswith s [c] \<longleftrightarrow> (\<exists>t. s = c # t)"
  by (cases s) (auto simp: startswith_def)

lemma py_eq_char [simp]: "py ''='' = [EQUALS]" "py ''#'' = [HASH]"
  by (simp_all add: py_def)

lemma environ_setitem_split:
  assumes "EQUALS \<in> set s"
  shows "environ_setitem env (takeWhile (\<lambda>c. c \<noteq> EQUALS) s) (tl (dropWhile (\<lambda>c. c \<noteq> EQUALS) s)) =
     (if NUL \<in> set s then Inl ValueError
      else if startswith s (py ''='') then Inl OSError
      else Inr (env(takeWhile (\<lambda>c. c \<noteq> EQUALS) s \<mapsto> tl (dropWhile (\<lambda>c. c \<noteq> EQUALS) s))))"
proof -
  let ?k = "takeWhile (\<lambda>c. c \<noteq> EQUALS) s" and ?v = "tl (dropWhile (\<lambda>c. c \<noteq> EQUALS) s)"
  have s: "s = ?k @ EQUALS # ?v" by (rule split_at_sep [OF assms])
  have nul: "NUL \<in> set s \<longleftrightarrow> NUL \<in> set ?k \<or> NUL \<in> set ?v"
    by (subst s) auto
  have emp: "startswith s [EQUALS] \<longleftrightarrow> ?k = []"
  proof (cases s)
    case Nil
    with assms show ?thesis by simp
  next
    case (Cons c t)
    then show ?thesis by (auto simp: startswith_char)
  qed
  show ?thesis
    using takeWhile_no_sep [of EQUALS s]
    by (simp add: environ_setitem_def nul emp)
qed

lemma load_env_lines_step:
  "load_env_lines (line # rest) env =
     (if refused line then (Some (if EQUALS \<in> set line \<and> NUL \<notin> set line then OSError else ValueError), env)
      else load_env_lines rest (overwrite (dotenv_entries [line]) env))"
proof (cases "strip line \<noteq> [] \<and> \<not> startswith line (py ''#'')")
  case False
  then show ?thesis by (auto simp: refused_def)
next
  case True
  show ?thesis
  proof (cases "EQUALS \<in> set line")
    case False
    with True show ?thesis
      by (simp add: refused_def split1_def strip_mem)
  next
    case eq: True
    then have eqs: "EQUALS \<in> set (strip line)" by (simp add: strip_mem)
    show ?thesis
      using True eq
      by (simp add: refused_def split1_def eqs environ_setitem_split [OF eqs] strip_mem)
  qed
qed

lemma load_env_lines_raises:
  "fst (load_env_lines lines env) = None \<longleftrightarrow> (\<forall>line\<in>set lines. \<not> refused line)"
proof (induction lines arbitrary: env)
  case Nil
  show ?case by simp
next
  case (Cons line rest)
  show ?case
    by (subst load_env_lines_step) (simp add: Cons.IH)
qed

lemma load_env_lines_returns:
  "\<not> (\<exists>line\<in>set lines. refused line) \<Longrightarrow>
   load_env_lines lines env = (None, overwrite (dotenv_entries lines) env)"
proof (induction lines arbitrary: env)
  case Nil
  show ?case by simp
next
  case (Cons line rest)
  from Cons.prems have l: "\<not> refused line" and r: "\<not> (\<exists>line\<in>set rest. refused line)" by auto
  show ?case
    by (subst load_env_lines_step) (simp add: l Cons.IH [OF r] refused_def [symmetric])
qed

lemma universal_newlines_id: "CR \<notin> set s \<Longrightarrow> universal_newlines s = s"
  by (induction s rule: universal_newlines.induct) auto

lemma keepends_line:
  "LF \<notin> set a \<Longrightarrow> keepends (a @ LF # rest) = (a @ [LF]) # keepends rest"
  by (induction a) auto

lemma dropWhile_shorter: "P x \<Longrightarrow> length (dropWhile P (x # xs)) < length (x # xs)"
  using length_dropWhile_le [of P xs] by simp

lemma dropWhile_id_iff: "dropWhile P xs = xs \<longleftrightarrow> xs = [] \<or> \<not> P (hd xs)"
proof (cases xs)
  case Nil
  then show ?thesis by simp
next
  case (Cons x xs')
  show ?thesis
  proof (cases "P x")
    case True
    from dropWhile_shorter [of P x xs'] True have "dropWhile P (x # xs') \<noteq> x # xs'"
      by (metis less_irrefl)
    with Cons True show ?thesis by simp
  next
    case False
    with Cons show ?thesis by simp
  qed
qed

lemma strip_fixed:
  assumes "strip v = v" "v \<noteq> []"
  shows "\<not> isspace (hd v) \<and> \<not> isspace (last v)"
proof -
  have len: "length (dropWhile isspace (rev (dropWhile isspace v))) = length v"
    using arg_cong [OF assms(1), of length] by (simp add: strip_def lstrip_def rstrip_def)
  have "length (dropWhile isspace (rev (dropWhile isspace v))) \<le> length (dropWhile isspace v)"
    using length_dropWhile_le [of isspace "rev (dropWhile isspace v)"] by simp
  with len have ge: "length v \<le> length (dropWhile isspace v)" by simp
  have h: "\<not> isspace (hd v)"
  proof
    assume "isspace (hd v)"
    with assms(2) dropWhile_shorter [of isspace "hd v" "tl v"] ge show False by simp
  qed
  with assms(2) have l: "dropWhile isspace v = v" by (simp add: dropWhile_id_iff)
  from assms(1) have "rev (dropWhile isspace (rev v)) = v"
    by (simp add: strip_def lstrip_def rstrip_def l)
  then have "dropWhile isspace (rev v) = rev v" by (simp add: rev_swap)
  with assms(2) have "\<not> isspace (hd (rev v))" by (simp add: dropWhile_id_iff)
  with assms(2) h show ?thesis by (simp add: hd_rev)
qed

lemma strip_line:
  assumes "s \<noteq> []" "\<not> isspace (hd s)" "\<not> isspace (last s)"
  shows "strip (s @ [LF]) = s"
proof -
  have "dropWhile isspace (s @ [LF]) = s @ [LF]"
    using assms by (cases s) auto
  moreover have "dropWhile isspace (rev s) = rev s"
    using assms by (cases "rev s") (auto simp: last_rev [symmetric] simp del: last_rev)
  ultimately show ?thesis
    by (simp add: strip_def lstrip_def rstrip_def)
qed

lemmas eval_strings = py_def isspace_def strip_def lstrip_def rstrip_def startswith_def
  file_lines_def split1_def environ_setitem_def

lemma py_nonspace_ends:
  "hd (py ''TURTLE_PROVIDER='' @ v) = 84" "hd (py ''TURTLE_MODEL='' @ v) = 84"
  "hd (py ''TURTLE_API_KEY='' @ v) = 84"
  by (simp_all add: py_def)

lemma assignment_line:
  assumes name: "name \<noteq> []" "\<not> isspace (hd name)" "EQUALS \<notin> set name" "NUL \<notin> set name"
      "hd name \<noteq> HASH" "LF \<notin> set name"
    and v: "strip v = v" "NUL \<notin> set v"
  shows "\<not> refused (name @ EQUALS # v @ [LF]) \<and>
         dotenv_entries [name @ EQUALS # v @ [LF]] = [(name, v)]"
proof -
  let ?s = "name @ EQUALS # v"
  have last: "\<not> isspace (last ?s)"
    using strip_fixed [OF v(1)] by (cases "v = []") simp_all
  have hd: "hd ?s = hd name" using name(1) by simp
  have s: "strip (?s @ [LF]) = ?s"
    by (rule strip_line) (use name last hd in simp_all)
  have s': "strip (name @ EQUALS # v @ [LF]) = ?s" using s by simp
  have tw: "takeWhile (\<lambda>c. c \<noteq> EQUALS) ?s = name" using name(3)
    by (simp add: takeWhile_append)
  have dw: "dropWhile (\<lambda>c. c \<noteq> EQUALS) ?s = EQUALS # v" using name(3)
    by (simp add: dropWhile_append)
  have st: "\<not> startswith (name @ EQUALS # v @ [LF]) [HASH]" "\<not> startswith ?s [EQUALS]"
    using name by (cases name; simp add: startswith_char)+
  show ?thesis
    using name v st by (simp add: refused_def s' tw dw)
qed

lemma comment_line: "\<not> refused (HASH # s) \<and> dotenv_entries [HASH # s] = []"
  by (simp add: refused_def startswith_def)

lemma file_lines_env_content:
  assumes "LF \<notin> set p" "CR \<notin> set p" "LF \<notin> set m" "CR \<notin> set m" "LF \<notin> set k" "CR \<notin> set k"
  shows "file_lines (env_content p m k) =
     [HASH # tl (py ''# Turtle CLI Configuration'') @ [LF],
      py ''TURTLE_PROVIDER'' @ EQUALS # p @ [LF],
      py ''TURTLE_MODEL'' @ EQUALS # m @ [LF],
      py ''TURTLE_API_KEY'' @ EQUALS # k @ [LF]]"
proof -
  have cr: "CR \<notin> set (env_content p m k)"
    using assms by (simp add: env_content_def py_def)
  have e: "env_content p m k =
     (py ''# Turtle CLI Configuration'') @ LF #
     ((py ''TURTLE_PROVIDER='' @ p) @ LF #
     ((py ''TURTLE_MODEL='' @ m) @ LF #
     ((py ''TURTLE_API_KEY='' @ k) @ LF # [])))"
    by (simp add: env_content_def)
  have "keepends (env_content p m k) =
     [py ''# Turtle CLI Configuration'' @ [LF], (py ''TURTLE_PROVIDER='' @ p) @ [LF],
      (py ''TURTLE_MODEL='' @ m) @ [LF], (py ''TURTLE_API_KEY='' @ k) @ [LF]]"
    unfolding e
    apply (subst keepends_line, simp add: py_def)
    apply (subst keepends_line, simp add: py_def assms)
    apply (subst keepends_line, simp add: py_def assms)
    apply (subst keepends_line, simp add: py_def assms)
    apply simp
    done
  then show ?thesis
    by (simp add: file_lines_def universal_newlines_id [OF cr] py_def)
qed

lemma load_saved_lines:
  assumes "LF \<notin> set p" "CR \<notin> set p" "LF \<notin> set m" "CR \<notin> set m" "LF \<notin> set k" "CR \<notin> set k"
    and "strip p = p" "strip m = m" "strip k = k"
    and "NUL \<notin> set p" "NUL \<notin> set m" "NUL \<notin> set k"
  shows "load_env_lines (file_lines (env_content p m k)) env =
     (None, env(py ''TURTLE_PROVIDER'' \<mapsto> p, py ''TURTLE_MODEL'' \<mapsto> m, py ''TURTLE_API_KEY'' \<mapsto> k))"
proof -
  have names: "\<And>name. name \<in> {py ''TURTLE_PROVIDER'', py ''TURTLE_MODEL'', py ''TURTLE_API_KEY''} \<Longrightarrow>
      name \<noteq> [] \<and> \<not> isspace (hd name) \<and> EQUALS \<notin> set name \<and> NUL \<notin> set name \<and>
      hd name \<noteq> HASH \<and> LF \<notin> set name"
    by (auto simp: py_def isspace_def)
  have a1: "\<not> refused (py ''TURTLE_PROVIDER'' @ EQUALS # p @ [LF]) \<and>
         dotenv_entries [py ''TURTLE_PROVIDER'' @ EQUALS # p @ [LF]] = [(py ''TURTLE_PROVIDER'', p)]"
    by (rule assignment_line) (use names assms in simp_all)
  have a2: "\<not> refused (py ''TURTLE_MODEL'' @ EQUALS # m @ [LF]) \<and>
         dotenv_entries [py ''TURTLE_MODEL'' @ EQUALS # m @ [LF]] = [(py ''TURTLE_MODEL'', m)]"
    by (rule assignment_line) (use names assms in simp_all)
  have a3: "\<not> refused (py ''TURTLE_API_KEY'' @ EQUALS # k @ [LF]) \<and>
         dotenv_entries [py ''TURTLE_API_KEY'' @ EQUALS # k @ [LF]] = [(py ''TURTLE_API_KEY'', k)]"
    by (rule assignment_line) (use names assms in simp_all)
  show ?thesis
    unfolding file_lines_env_content [OF assms(1-6)]
    apply (subst load_env_lines_step, simp only: comment_line if_False overwrite.simps)
    apply (subst load_env_lines_step, simp only: a1 if_False overwrite.simps)
    apply (subst load_env_lines_step, simp only: a2 if_False overwrite.simps)
    apply (subst load_env_lines_step, simp only: a3 if_False overwrite.simps)
    apply simp
    done
qed

section \<open>Configuration dictionaries\<close>

lemma py_keys_distinct [simp]:
  "py ''provider'' \<noteq> py ''model''" "py ''provider'' \<noteq> py ''api_key''"
  "py ''model'' \<noteq> py ''api_key''" "py ''model'' \<noteq> py ''provider''"
  "py ''api_key'' \<noteq> py ''provider''" "py ''api_key'' \<noteq> py ''model''"
  by (simp_all add: py_def)

lemma dict_get_truthy:
  "truthy (dict_get config k) \<longleftrightarrow> (\<exists>s. config k = Some (Some s) \<and> s \<noteq> [])"
  by (auto simp: dict_get_def truthy_def split: option.splits)

lemma validate_config_iff:
  "validate_config config \<longleftrightarrow>
     (\<exists>s. config (py ''provider'') = Some (Some s) \<and> s \<noteq> []) \<and>
     (\<exists>s. config (py ''model'') = Some (Some s) \<and> s \<noteq> []) \<and>
     (\<exists>s. config (py ''api_key'') = Some (Some s) \<and> s \<noteq> [])"
  by (simp add: validate_config_def required_fields_def dict_get_truthy)

lemma load_config_no_env_file:
  "env_file w = Missing \<Longrightarrow>
   load_config w =
     (Inr [py ''provider'' \<mapsto> environ w (py ''TURTLE_PROVIDER''),
           py ''model'' \<mapsto> environ w (py ''TURTLE_MODEL''),
           py ''api_key'' \<mapsto> environ w (py ''TURTLE_API_KEY'')], w)"
  by (simp add: load_config_def env_file_exists_def)

section \<open>Saving the configuration and loading it again\<close>

text \<open>
  Claim C1, as amended. Let provider, model and API key be non-empty strings that
  contain no line feed, no carriage return and no NUL character, are equal to their
  own \<open>strip()\<close> and do not begin with \<open>#\<close>. When \<open>save_configuration\<close> completes,
  \<open>load_config\<close> on the resulting files returns a dictionary whose entries
  \<open>provider\<close>, \<open>model\<close> and \<open>api_key\<close> are the three saved values.
\<close>

theorem configuration_round_trip:
  assumes "provider \<noteq> []" "model \<noteq> []" "api_key \<noteq> []"
    and "\<forall>v\<in>{provider, model, api_key}.
           LF \<notin> set v \<and> CR \<notin> set v \<and> NUL \<notin> set v \<and> strip v = v \<and> \<not> startswith v (py ''#'')"
    and "save_configuration provider model api_key w = (Inr (), w1)"
  shows "\<exists>config w2. load_config w1 = (Inr config, w2) \<and>
           config (py ''provider'') = Some (Some provider) \<and>
           config (py ''model'') = Some (Some model) \<and>
           config (py ''api_key'') = Some (Some api_key)"
proof -
  from save_configuration_success [OF assms(5)]
  have f: "env_file w1 = Regular (env_content provider model api_key)" by simp
  have l: "load_env_lines (file_lines (env_content provider model api_key)) (environ w1) =
     (None, (environ w1)(py ''TURTLE_PROVIDER'' \<mapsto> provider, py ''TURTLE_MODEL'' \<mapsto> model,
        py ''TURTLE_API_KEY'' \<mapsto> api_key))"
    by (rule load_saved_lines) (use assms(4) in simp_all)
  have d: "py ''TURTLE_PROVIDER'' \<noteq> py ''TURTLE_MODEL''"
    "py ''TURTLE_PROVIDER'' \<noteq> py ''TURTLE_API_KEY''" "py ''TURTLE_MODEL'' \<noteq> py ''TURTLE_API_KEY''"
    by (simp_all add: py_def)
  show ?thesis
    by (simp add: load_config_def env_file_exists_def f l d)
qed

theorem configuration_round_trip_witness:
  "save_configuration (py ''openai'') (py ''gpt-4'') (py ''sk-1'') (fresh_world []) =
     (Inr (), (fresh_world [])
        \<lparr>env_file := Regular (env_content (py ''openai'') (py ''gpt-4'') (py ''sk-1'')),
         config_dir := TurtleDir (Regular (config_data (py ''openai'') (py ''gpt-4'')))\<rparr>) \<and>
   (\<exists>config w2.
      load_config ((fresh_world [])
        \<lparr>env_file := Regular (env_content (py ''openai'') (py ''gpt-4'') (py ''sk-1'')),
         config_dir := TurtleDir (Regular (config_data (py ''openai'') (py ''gpt-4'')))\<rparr>) =
        (Inr config, w2) \<and>
      config (py ''provider'') = Some (Some (py ''openai'')) \<and>
      config (py ''model'') = Some (Some (py ''gpt-4'')) \<and>
      config (py ''api_key'') = Some (Some (py ''sk-1'')))"
proof -
  let ?w = "fresh_world []"
  let ?w1 = "?w\<lparr>env_file := Regular (env_content (py ''openai'') (py ''gpt-4'') (py ''sk-1'')),
         config_dir := TurtleDir (Regular (config_data (py ''openai'') (py ''gpt-4'')))\<rparr>"
  have s: "save_configuration (py ''openai'') (py ''gpt-4'') (py ''sk-1'') ?w = (Inr (), ?w1)"
    by (simp add: save_configuration_def write_env_file_def mkdir_config_dir_def
        write_config_file_def fresh_world_def)
  have h: "\<forall>v\<in>{py ''openai'', py ''gpt-4'', py ''sk-1''}.
           LF \<notin> set v \<and> CR \<notin> set v \<and> NUL \<notin> set v \<and> strip v = v \<and> \<not> startswith v (py ''#'')"
    by (simp add: py_def isspace_def strip_def lstrip_def rstrip_def startswith_def)
  have n: "py ''openai'' \<noteq> []" "py ''gpt-4'' \<noteq> []" "py ''sk-1'' \<noteq> []"
    by (simp_all add: py_def)
  from configuration_round_trip [OF n h s] s show ?thesis by simp
qed

text \<open>The claim as it was written, without the exclusion of NUL, fails: an API key
  with an embedded NUL satisfies its hypotheses, is saved, and makes \<open>load_config\<close>
  raise \<open>ValueError\<close> at the assignment to \<open>os.environ\<close>.\<close>

theorem round_trip_fails_on_nul:
  "key_with_nul \<noteq> [] \<and> LF \<notin> set key_with_nul \<and> strip key_with_nul = key_with_nul \<and>
   \<not> startswith key_with_nul (py ''#'') \<and>
   fst (save_configuration (py ''openai'') (py ''gpt-4'') key_with_nul (fresh_world [])) = Inr () \<and>
   fst (load_config
         (snd (save_configuration (py ''openai'') (py ''gpt-4'') key_with_nul (fresh_world [])))) =
     Inl ValueError"
proof -
  have s: "save_configuration (py ''openai'') (py ''gpt-4'') key_with_nul (fresh_world []) =
     (Inr (), (fresh_world [])
        \<lparr>env_file := Regular (env_content (py ''openai'') (py ''gpt-4'') key_with_nul),
         config_dir := TurtleDir (Regular (config_data (py ''openai'') (py ''gpt-4'')))\<rparr>)"
    by (simp add: save_configuration_def write_env_file_def mkdir_config_dir_def
        write_config_file_def fresh_world_def key_with_nul_def)
  have fl: "file_lines (env_content (py ''openai'') (py ''gpt-4'') key_with_nul) =
     [HASH # tl (py ''# Turtle CLI Configuration'') @ [LF],
      py ''TURTLE_PROVIDER'' @ EQUALS # py ''openai'' @ [LF],
      py ''TURTLE_MODEL'' @ EQUALS # py ''gpt-4'' @ [LF],
      py ''TURTLE_API_KEY'' @ EQUALS # key_with_nul @ [LF]]"
    by (rule file_lines_env_content) (simp_all add: py_def key_with_nul_def)
  have a1: "\<not> refused (py ''TURTLE_PROVIDER'' @ EQUALS # py ''openai'' @ [LF]) \<and>
         dotenv_entries [py ''TURTLE_PROVIDER'' @ EQUALS # py ''openai'' @ [LF]] =
           [(py ''TURTLE_PROVIDER'', py ''openai'')]"
    by (rule assignment_line) (simp_all add: py_def isspace_def strip_def lstrip_def rstrip_def)
  have a2: "\<not> refused (py ''TURTLE_MODEL'' @ EQUALS # py ''gpt-4'' @ [LF]) \<and>
         dotenv_entries [py ''TURTLE_MODEL'' @ EQUALS # py ''gpt-4'' @ [LF]] =
           [(py ''TURTLE_MODEL'', py ''gpt-4'')]"
    by (rule assignment_line) (simp_all add: py_def isspace_def strip_def lstrip_def rstrip_def)
  have st: "strip key_with_nul = key_with_nul"
    by (simp add: key_with_nul_def py_def isspace_def strip_def lstrip_def rstrip_def)
  have a3: "refused (py ''TURTLE_API_KEY'' @ EQUALS # key_with_nul @ [LF])"
  proof -
    have "strip ((py ''TURTLE_API_KEY'' @ EQUALS # key_with_nul) @ [LF]) =
        py ''TURTLE_API_KEY'' @ EQUALS # key_with_nul"
      by (rule strip_line) (simp_all add: py_def key_with_nul_def isspace_def)
    then have "strip (py ''TURTLE_API_KEY'' @ EQUALS # key_with_nul @ [LF]) \<noteq> []" by simp
    then show ?thesis
      by (simp add: refused_def key_with_nul_def startswith_def) (simp add: py_def)
  qed
  have "load_env_lines (file_lines (env_content (py ''openai'') (py ''gpt-4'') key_with_nul)) env =
      (Some ValueError, env(py ''TURTLE_PROVIDER'' \<mapsto> py ''openai'', py ''TURTLE_MODEL'' \<mapsto> py ''gpt-4''))"
    for env
    unfolding fl
    apply (subst load_env_lines_step, simp only: comment_line if_False overwrite.simps)
    apply (subst load_env_lines_step, simp only: a1 if_False overwrite.simps)
    apply (subst load_env_lines_step, simp only: a2 if_False overwrite.simps)
    apply (subst load_env_lines_step, simp only: a3 if_True)
    apply (simp add: key_with_nul_def)
    done
  then show ?thesis
    by (simp add: s st load_config_def env_file_exists_def)
       (simp add: key_with_nul_def py_def startswith_def)
qed

text \<open>The carriage return has to be excluded as well: the file is read with universal
  newlines, so a carriage return inside a value ends the line, and the rest of the
  value is a line without \<open>=\<close>.\<close>

lemma round_trip_fails_on_carriage_return:
  "LF \<notin> set model_with_cr \<and> strip model_with_cr = model_with_cr \<and>
   file_lines (env_content (py ''openai'') model_with_cr (py ''sk-1'')) =
     [py ''# Turtle CLI Configuration'' @ [LF], py ''TURTLE_PROVIDER=openai'' @ [LF],
      py ''TURTLE_MODEL=gpt'' @ [LF], py ''4'' @ [LF], py ''TURTLE_API_KEY=sk-1'' @ [LF]] \<and>
   fst (load_env_lines (file_lines (env_content (py ''openai'') model_with_cr (py ''sk-1'')))
          Map.empty) = Some ValueError"
proof -
  have l: "file_lines (env_content (py ''openai'') model_with_cr (py ''sk-1'')) =
     [py ''# Turtle CLI Configuration'' @ [LF], py ''TURTLE_PROVIDER=openai'' @ [LF],
      py ''TURTLE_MODEL=gpt'' @ [LF], py ''4'' @ [LF], py ''TURTLE_API_KEY=sk-1'' @ [LF]]"
    by (simp add: file_lines_def env_content_def model_with_cr_def py_def)
  have "fst (load_env_lines (file_lines (env_content (py ''openai'') model_with_cr (py ''sk-1'')))
          Map.empty) = Some ValueError"
    unfolding l by (simp add: eval_strings)
  with l show ?thesis
    by (simp add: model_with_cr_def) (simp add: eval_strings)
qed

section \<open>The wizard as a sequence of prompts\<close>

lemma providers_iff:
  "providers c = Some p \<longleftrightarrow>
     (c, p) \<in> {(py ''1'', py ''openai''), (py ''2'', py ''anthropic''), (py ''3'', py ''gemini'')}"
  by (auto simp: providers_def py_def split: if_splits)

lemma model_at_None:
  "model_at int_of p line = None \<longleftrightarrow>
     (\<forall>i. int_of line = Some i \<longrightarrow> \<not> (1 \<le> i \<and> i \<le> int (length (provider_models p))))"
  by (auto simp: model_at_def split: option.splits)

text \<open>
  Claim C7. \<open>get_provider_choice\<close> returns a provider exactly when standard input
  holds lines that are none of the choices 1 to 3, followed by a line that is one; it
  consumes them and returns the provider of that choice. \<open>get_model_choice\<close> does the
  same for the indices of the provider's list of models, and \<open>get_api_key\<close> for a
  line that is non-empty once stripped. \<open>force_setup\<close> returns \<open>True\<close> exactly when
  the three prompts return a value one after the other and \<open>save_configuration\<close>
  then completes; the files change only when the three values have been collected and
  \<open>validate_config\<close> has accepted them; and \<open>run_setup\<close> is \<open>force_setup\<close> behind
  the first-run guard.
\<close>

theorem setup_is_a_linear_sequence:
  "(get_provider_choice w = (Inr provider, w1) \<longleftrightarrow>
      (\<exists>bad good rest.
         stdin w = map Line bad @ Line good # rest \<and>
         (\<forall>b\<in>set bad. providers (strip b) = None) \<and> providers (strip good) = Some provider \<and>
         w1 = w\<lparr>stdin := rest, prompts := prompts w + length bad + 1\<rparr>)) \<and>
   (providers choice = Some provider \<longleftrightarrow>
      (choice, provider) \<in>
        {(py ''1'', py ''openai''), (py ''2'', py ''anthropic''), (py ''3'', py ''gemini'')}) \<and>
   (get_model_choice int_of provider w1 = (Inr model, w2) \<longleftrightarrow>
      (\<exists>bad good rest i.
         stdin w1 = map Line bad @ Line good # rest \<and>
         (\<forall>b\<in>set bad. \<forall>j. int_of b = Some j \<longrightarrow>
            \<not> (1 \<le> j \<and> j \<le> int (length (provider_models provider)))) \<and>
         int_of good = Some i \<and> 1 \<le> i \<and> i \<le> int (length (provider_models provider)) \<and>
         model = provider_models provider ! nat (i - 1) \<and>
         w2 = w1\<lparr>stdin := rest, prompts := prompts w1 + length bad + 1\<rparr>)) \<and>
   (get_api_key provider w2 = (Inr api_key, w3) \<longleftrightarrow>
      (\<exists>bad good rest.
         stdin w2 = map Line bad @ Line good # rest \<and>
         (\<forall>b\<in>set bad. strip b = []) \<and> strip good \<noteq> [] \<and> api_key = strip good \<and>
         w3 = w2\<lparr>stdin := rest, prompts := prompts w2 + length bad + 1\<rparr>)) \<and>
   (force_setup int_of w = (Returned True, w') \<longleftrightarrow>
      (\<exists>p m k u1 u2 u3.
         get_provider_choice w = (Inr p, u1) \<and> get_model_choice int_of p u1 = (Inr m, u2) \<and>
         get_api_key p u2 = (Inr k, u3) \<and> save_configuration p m k u3 = (Inr (), w'))) \<and>
   (force_setup int_of w = (out, w') \<and>
    (env_file w' \<noteq> env_file w \<or> config_dir w' \<noteq> config_dir w) \<longrightarrow>
      (\<exists>p m k u1 u2 u3.
         get_provider_choice w = (Inr p, u1) \<and> get_model_choice int_of p u1 = (Inr m, u2) \<and>
         get_api_key p u2 = (Inr k, u3) \<and> wizard_validate_config p m k \<and>
         w' = snd (save_configuration p m k u3))) \<and>
   run_setup int_of w =
     (if is_first_run w then force_setup int_of w else (Returned False, w))"
proof (intro conjI)
  show "get_provider_choice w = (Inr provider, w1) \<longleftrightarrow>
      (\<exists>bad good rest.
         stdin w = map Line bad @ Line good # rest \<and>
         (\<forall>b\<in>set bad. providers (strip b) = None) \<and> providers (strip good) = Some provider \<and>
         w1 = w\<lparr>stdin := rest, prompts := prompts w + length bad + 1\<rparr>)"
    by (simp add: get_provider_choice_prompt_until prompt_until_accepts)
  show "providers choice = Some provider \<longleftrightarrow>
      (choice, provider) \<in>
        {(py ''1'', py ''openai''), (py ''2'', py ''anthropic''), (py ''3'', py ''gemini'')}"
    by (rule providers_iff)
  show "get_model_choice int_of provider w1 = (Inr model, w2) \<longleftrightarrow>
      (\<exists>bad good rest i.
         stdin w1 = map Line bad @ Line good # rest \<and>
         (\<forall>b\<in>set bad. \<forall>j. int_of b = Some j \<longrightarrow>
            \<not> (1 \<le> j \<and> j \<le> int (length (provider_models provider)))) \<and>
         int_of good = Some i \<and> 1 \<le> i \<and> i \<le> int (length (provider_models provider)) \<and>
         model = provider_models provider ! nat (i - 1) \<and>
         w2 = w1\<lparr>stdin := rest, prompts := prompts w1 + length bad + 1\<rparr>)"
    unfolding get_model_choice_prompt_until prompt_until_accepts model_at_Some model_at_None
    by blast
  show "get_api_key provider w2 = (Inr api_key, w3) \<longleftrightarrow>
      (\<exists>bad good rest.
         stdin w2 = map Line bad @ Line good # rest \<and>
         (\<forall>b\<in>set bad. strip b = []) \<and> strip good \<noteq> [] \<and> api_key = strip good \<and>
         w3 = w2\<lparr>stdin := rest, prompts := prompts w2 + length bad + 1\<rparr>)"
    unfolding get_api_key_prompt_until prompt_until_accepts
    by (auto split: if_splits)
  show "force_setup int_of w = (Returned True, w') \<longleftrightarrow>
      (\<exists>p m k u1 u2 u3.
         get_provider_choice w = (Inr p, u1) \<and> get_model_choice int_of p u1 = (Inr m, u2) \<and>
         get_api_key p u2 = (Inr k, u3) \<and> save_configuration p m k u3 = (Inr (), w'))"
    unfolding force_setup_True using collected_valid by blast
  show "force_setup int_of w = (out, w') \<and>
    (env_file w' \<noteq> env_file w \<or> config_dir w' \<noteq> config_dir w) \<longrightarrow>
      (\<exists>p m k u1 u2 u3.
         get_provider_choice w = (Inr p, u1) \<and> get_model_choice int_of p u1 = (Inr m, u2) \<and>
         get_api_key p u2 = (Inr k, u3) \<and> wizard_validate_config p m k \<and>
         w' = snd (save_configuration p m k u3))"
    using force_setup_writes_late by blast
  show "run_setup int_of w =
     (if is_first_run w then force_setup int_of w else (Returned False, w))"
    by (rule run_setup_force_setup)
qed

theorem setup_is_a_linear_sequence_witness:
  "run_setup ascii_int (fresh_world example_answers) =
     (Returned True,
      \<lparr>env_file = Regular (env_content (py ''anthropic'') (py ''claude-3-opus'') (py ''key'')),
       config_dir = TurtleDir (Regular (config_data (py ''anthropic'') (py ''claude-3-opus''))),
       stdin = [], prompts = 6, environ = Map.empty\<rparr>)"
proof -
  let ?w = "fresh_world example_answers"
  let ?u1 = "?w\<lparr>stdin := drop 2 example_answers, prompts := 2\<rparr>"
  let ?u2 = "?w\<lparr>stdin := drop 4 example_answers, prompts := 4\<rparr>"
  let ?u3 = "?w\<lparr>stdin := [], prompts := 6\<rparr>"
  let ?w' = "\<lparr>env_file = Regular (env_content (py ''anthropic'') (py ''claude-3-opus'') (py ''key'')),
       config_dir = TurtleDir (Regular (config_data (py ''anthropic'') (py ''claude-3-opus''))),
       stdin = [], prompts = 6, environ = Map.empty\<rparr>"
  have g1: "get_provider_choice ?w = (Inr (py ''anthropic''), ?u1)"
    by (simp add: get_provider_choice.simps input_def fresh_world_def example_answers_def
        providers_def eval_strings)
  have g2: "get_model_choice ascii_int (py ''anthropic'') ?u1 = (Inr (py ''claude-3-opus''), ?u2)"
    by (simp add: get_model_choice.simps input_def fresh_world_def example_answers_def
        provider_models_def models_def ascii_int_def eval_strings)
  have g3: "get_api_key (py ''anthropic'') ?u2 = (Inr (py ''key''), ?u3)"
    by (simp add: get_api_key.simps input_def fresh_world_def example_answers_def eval_strings)
  have s: "save_configuration (py ''anthropic'') (py ''claude-3-opus'') (py ''key'') ?u3 =
      (Inr (), ?w')"
    by (simp add: save_configuration_def write_env_file_def mkdir_config_dir_def
        write_config_file_def fresh_world_def)
  have f: "is_first_run ?w"
    by (simp add: is_first_run_def env_file_exists_def config_file_exists_def fresh_world_def)
  note t = setup_is_a_linear_sequence [where w = ?w and int_of = ascii_int and w' = ?w']
  from g1 g2 g3 s have "force_setup ascii_int ?w = (Returned True, ?w')"
    unfolding t [THEN conjunct2, THEN conjunct2, THEN conjunct2, THEN conjunct2, THEN conjunct1]
    by blast
  with f show ?thesis
    using t [THEN conjunct2, THEN conjunct2, THEN conjunct2, THEN conjunct2, THEN conjunct2,
        THEN conjunct2]
    by simp
qed

section \<open>When \<open>load_config\<close> raises\<close>

text \<open>
  Claim C8, as amended. \<open>load_config\<close> raises exactly when \<open>.env\<close> exists and is a
  directory, or is a file that the process may not read, or is a file whose bytes do
  not decode as text, or has a line that is not blank once stripped, does not begin
  with \<open>#\<close>, and either contains no \<open>=\<close>, or begins with \<open>=\<close> once stripped (an empty
  variable name), or contains a NUL character. Whenever it returns, the dictionary has
  exactly the keys \<open>provider\<close>, \<open>model\<close> and \<open>api_key\<close>, with the values of
  \<open>TURTLE_PROVIDER\<close>, \<open>TURTLE_MODEL\<close> and \<open>TURTLE_API_KEY\<close> in the environment that
  the assignments of \<open>.env\<close> have overwritten, in the order of the file; nothing else
  in the world changes.
\<close>

theorem load_config_outcome:
  "((\<exists>e. fst (load_config w) = Inl e) \<longleftrightarrow>
      env_file w = Folder \<or> env_file w = NoAccess \<or>
      (\<exists>delivered. env_file w = Garbled delivered) \<or>
      (\<exists>text line.
         env_file w = Regular text \<and> line \<in> set (file_lines text) \<and>
         strip line \<noteq> [] \<and> \<not> startswith line (py ''#'') \<and>
         (EQUALS \<notin> set line \<or> startswith (strip line) (py ''='') \<or> NUL \<in> set line))) \<and>
   (\<forall>config w'. load_config w = (Inr config, w') \<longrightarrow>
      dom config = {py ''provider'', py ''model'', py ''api_key''} \<and>
      config (py ''provider'') = Some (environ w' (py ''TURTLE_PROVIDER'')) \<and>
      config (py ''model'') = Some (environ w' (py ''TURTLE_MODEL'')) \<and>
      config (py ''api_key'') = Some (environ w' (py ''TURTLE_API_KEY'')) \<and>
      environ w' =
        overwrite
          (case env_file w of Regular text \<Rightarrow> dotenv_entries (file_lines text) | _ \<Rightarrow> [])
          (environ w) \<and>
      w' = w\<lparr>environ := environ w'\<rparr>)"
proof (cases "env_file w")
  case Missing
  then show ?thesis
    by (auto simp: load_config_no_env_file)
next
  case Folder
  then have "fst (load_config w) = Inl IsADirectoryError"
    by (simp add: load_config_def env_file_exists_def)
  with Folder show ?thesis by auto
next
  case NoAccess
  then have "fst (load_config w) = Inl PermissionError"
    by (simp add: load_config_def env_file_exists_def)
  with NoAccess show ?thesis by auto
next
  case (Garbled delivered)
  then have "\<exists>e. fst (load_config w) = Inl e"
    by (auto simp: load_config_def env_file_exists_def split: prod.splits option.splits)
  with Garbled show ?thesis by auto
next
  case (Regular body)
  obtain r env where l: "load_env_lines (file_lines body) (environ w) = (r, env)" by force
  have r: "r = None \<longleftrightarrow> (\<forall>line\<in>set (file_lines body). \<not> refused line)"
    using load_env_lines_raises [of "file_lines body" "environ w"] l by simp
  have lc: "load_config w =
      (case r of Some e \<Rightarrow> (Inl e, w\<lparr>environ := env\<rparr>)
       | None \<Rightarrow>
         (Inr [py ''provider'' \<mapsto> env (py ''TURTLE_PROVIDER''),
              py ''model'' \<mapsto> env (py ''TURTLE_MODEL''),
              py ''api_key'' \<mapsto> env (py ''TURTLE_API_KEY'')], w\<lparr>environ := env\<rparr>))"
    by (simp add: load_config_def env_file_exists_def Regular l)
  show ?thesis
  proof (cases r)
    case None
    with r have ok: "\<forall>line\<in>set (file_lines body). \<not> refused line" by simp
    with l have env: "env = overwrite (dotenv_entries (file_lines body)) (environ w)"
      using load_env_lines_returns [of "file_lines body" "environ w"] by simp
    have "\<not> (\<exists>t line.
         env_file w = Regular t \<and> line \<in> set (file_lines t) \<and>
         strip line \<noteq> [] \<and> \<not> startswith line (py ''#'') \<and>
         (EQUALS \<notin> set line \<or> startswith (strip line) (py ''='') \<or> NUL \<in> set line))"
      using ok Regular by (auto simp: refused_def)
    then show ?thesis
      using None Regular env by (auto simp: lc)
  next
    case (Some e)
    with r obtain line where "line \<in> set (file_lines body)" "refused line" by auto
    then have "\<exists>t line.
         env_file w = Regular t \<and> line \<in> set (file_lines t) \<and>
         strip line \<noteq> [] \<and> \<not> startswith line (py ''#'') \<and>
         (EQUALS \<notin> set line \<or> startswith (strip line) (py ''='') \<or> NUL \<in> set line)"
      using Regular unfolding refused_def by blast
    then show ?thesis
      using Some by (simp add: lc)
  qed
qed

lemma example_dotenv_lines:
  "file_lines example_dotenv =
     [py ''# c'' @ [LF], py ''TURTLE_PROVIDER=gemini'' @ [LF], [LF], py ''TURTLE_API_KEY=a=b'']"
  by (simp add: example_dotenv_def file_lines_def py_def)

lemma example_dotenv_entries:
  "dotenv_entries (file_lines example_dotenv) =
     [(py ''TURTLE_PROVIDER'', py ''gemini''), (py ''TURTLE_API_KEY'', py ''a=b'')]"
  unfolding example_dotenv_lines
  by (simp add: eval_strings)

text \<open>A \<open>.env\<close> with a comment, two assignments and a blank line is loaded over a
  configured environment; a directory, a file without access and a file that does not
  decode make \<open>load_config\<close> raise.\<close>

theorem load_config_outcome_witness:
  "(\<exists>config w'.
      load_config
        ((fresh_world [])\<lparr>env_file := Regular example_dotenv, environ := configured_environ\<rparr>) =
        (Inr config, w') \<and>
      config (py ''provider'') = Some (Some (py ''gemini'')) \<and>
      config (py ''model'') = Some (Some (py ''gpt-4'')) \<and>
      config (py ''api_key'') = Some (Some (py ''a=b''))) \<and>
   fst (load_config ((fresh_world [])\<lparr>env_file := Folder\<rparr>)) = Inl IsADirectoryError \<and>
   fst (load_config ((fresh_world [])\<lparr>env_file := NoAccess\<rparr>)) = Inl PermissionError \<and>
   fst (load_config ((fresh_world [])\<lparr>env_file := Garbled []\<rparr>)) = Inl UnicodeDecodeError"
proof -
  let ?w = "(fresh_world [])\<lparr>env_file := Regular example_dotenv, environ := configured_environ\<rparr>"
  note t = load_config_outcome [of ?w]
  have "\<forall>line\<in>set (file_lines example_dotenv). \<not> refused line"
    unfolding example_dotenv_lines by (simp add: refused_def) (simp add: eval_strings)
  then have "\<not> (env_file ?w = Folder \<or> env_file ?w = NoAccess \<or>
      (\<exists>delivered. env_file ?w = Garbled delivered) \<or>
      (\<exists>body line.
         env_file ?w = Regular body \<and> line \<in> set (file_lines body) \<and>
         strip line \<noteq> [] \<and> \<not> startswith line (py ''#'') \<and>
         (EQUALS \<notin> set line \<or> startswith (strip line) (py ''='') \<or> NUL \<in> set line)))"
    by (auto simp: refused_def)
  with t [THEN conjunct1] have "\<not> (\<exists>e. fst (load_config ?w) = Inl e)" by blast
  then obtain config w' where l: "load_config ?w = (Inr config, w')"
    by (cases "load_config ?w"; cases "fst (load_config ?w)") auto
  from t [THEN conjunct2, rule_format, OF l]
  have "config (py ''provider'') = Some (Some (py ''gemini'')) \<and>
      config (py ''model'') = Some (Some (py ''gpt-4'')) \<and>
      config (py ''api_key'') = Some (Some (py ''a=b''))"
    by (simp add: example_dotenv_entries configured_environ_def) (simp add: py_def)
  with l have "\<exists>config w'.
      load_config ?w = (Inr config, w') \<and>
      config (py ''provider'') = Some (Some (py ''gemini'')) \<and>
      config (py ''model'') = Some (Some (py ''gpt-4'')) \<and>
      config (py ''api_key'') = Some (Some (py ''a=b''))" by blast
  moreover have
    "fst (load_config ((fresh_world [])\<lparr>env_file := Folder\<rparr>)) = Inl IsADirectoryError"
    "fst (load_config ((fresh_world [])\<lparr>env_file := NoAccess\<rparr>)) = Inl PermissionError"
    "fst (load_config ((fresh_world [])\<lparr>env_file := Garbled []\<rparr>)) = Inl UnicodeDecodeError"
    by (simp_all add: load_config_def env_file_exists_def fresh_world_def)
  ultimately show ?thesis by blast
qed

text \<open>The claim as it was written fails: in each of these two files the only line
  contains \<open>=\<close>, and \<open>load_config\<close> raises, for the empty variable name in the first
  and for the NUL character in the second.\<close>

theorem load_config_raises_with_equals:
  "file_lines (py ''=x'' @ [LF]) = [py ''=x'' @ [LF]] \<and> EQUALS \<in> set (py ''=x'' @ [LF]) \<and>
   fst (load_config ((fresh_world [])\<lparr>env_file := Regular (py ''=x'' @ [LF])\<rparr>)) = Inl OSError \<and>
   file_lines (py ''A=b'' @ [NUL, LF]) = [py ''A=b'' @ [NUL, LF]] \<and>
   EQUALS \<in> set (py ''A=b'' @ [NUL, LF]) \<and>
   fst (load_config ((fresh_world [])\<lparr>env_file := Regular (py ''A=b'' @ [NUL, LF])\<rparr>)) =
     Inl ValueError"
proof -
  have l1: "file_lines (py ''=x'' @ [LF]) = [py ''=x'' @ [LF]]"
    and l2: "file_lines (py ''A=b'' @ [NUL, LF]) = [py ''A=b'' @ [NUL, LF]]"
    by (simp_all add: file_lines_def py_def)
  have "fst (load_config ((fresh_world [])\<lparr>env_file := Regular (py ''=x'' @ [LF])\<rparr>)) = Inl OSError"
    by (simp add: load_config_def env_file_exists_def l1) (simp add: eval_strings)
  moreover
  have "fst (load_config ((fresh_world [])\<lparr>env_file := Regular (py ''A=b'' @ [NUL, LF])\<rparr>)) =
     Inl ValueError"
    by (simp add: load_config_def env_file_exists_def l2) (simp add: eval_strings)
  ultimately show ?thesis using l1 l2 by (simp add: py_def)
qed

section \<open>The first-run guard\<close>

text \<open>
  Claim C9. \<open>is_first_run\<close> is true exactly when neither \<open>.env\<close> nor
  \<open>.turtle/config.json\<close> exists. When it is false, \<open>run_setup\<close> returns \<open>False\<close> and
  leaves the world as it was: no prompt is shown, no input is consumed, no file is
  written. After a \<open>save_configuration\<close> that completes, both files exist, so
  \<open>is_first_run\<close> is false and \<open>run_setup\<close> refuses to run; and no run of \<open>main\<close>
  removes the files, so a configured directory is never a first run again.
\<close>

theorem first_run_guard:
  "(is_first_run w \<longleftrightarrow>
      env_file w = Missing \<and> (\<forall>e. config_dir w = TurtleDir e \<longrightarrow> e = Missing)) \<and>
   (\<not> is_first_run w \<longrightarrow> run_setup int_of w = (Returned False, w)) \<and>
   (save_configuration provider model api_key w = (Inr (), w') \<longrightarrow>
      env_file_exists w' \<and> config_file_exists w' \<and> \<not> is_first_run w' \<and>
      run_setup int_of w' = (Returned False, w')) \<and>
   (\<not> is_first_run w \<longrightarrow> \<not> is_first_run (snd (main int_of a w)))"
proof (intro conjI impI)
  show "is_first_run w \<longleftrightarrow>
      env_file w = Missing \<and> (\<forall>e. config_dir w = TurtleDir e \<longrightarrow> e = Missing)"
    by (auto simp: is_first_run_def env_file_exists_def config_file_exists_def
        split: turtle_dir.splits)
next
  assume "\<not> is_first_run w"
  then show "run_setup int_of w = (Returned False, w)" by (simp add: run_setup_def)
next
  assume s: "save_configuration provider model api_key w = (Inr (), w')"
  from save_configuration_success [OF s]
  show e: "env_file_exists w'" and c: "config_file_exists w'"
    by (simp_all add: env_file_exists_def config_file_exists_def)
  from e show n: "\<not> is_first_run w'" by (simp add: is_first_run_def)
  then show "run_setup int_of w' = (Returned False, w')" by (simp add: run_setup_def)
next
  assume n: "\<not> is_first_run w"
  obtain out w1 where m: "main int_of a w = (out, w1)" by force
  from main_keeps_files [OF m] n show "\<not> is_first_run (snd (main int_of a w))"
    by (auto simp: m is_first_run_def)
qed

theorem first_run_guard_witness:
  "is_first_run (fresh_world [Line (py ''1'')]) \<and>
   save_configuration (py ''openai'') (py ''gpt-4'') (py ''sk-1'') (fresh_world [Line (py ''1'')]) =
     (Inr (), (fresh_world [Line (py ''1'')])
        \<lparr>env_file := Regular (env_content (py ''openai'') (py ''gpt-4'') (py ''sk-1'')),
         config_dir := TurtleDir (Regular (config_data (py ''openai'') (py ''gpt-4'')))\<rparr>) \<and>
   run_setup ascii_int ((fresh_world [Line (py ''1'')])
        \<lparr>env_file := Regular (env_content (py ''openai'') (py ''gpt-4'') (py ''sk-1'')),
         config_dir := TurtleDir (Regular (config_data (py ''openai'') (py ''gpt-4'')))\<rparr>) =
     (Returned False, (fresh_world [Line (py ''1'')])
        \<lparr>env_file := Regular (env_content (py ''openai'') (py ''gpt-4'') (py ''sk-1'')),
         config_dir := TurtleDir (Regular (config_data (py ''openai'') (py ''gpt-4'')))\<rparr>)"
proof -
  let ?w = "fresh_world [Line (py ''1'')]"
  let ?w' = "?w\<lparr>env_file := Regular (env_content (py ''openai'') (py ''gpt-4'') (py ''sk-1'')),
         config_dir := TurtleDir (Regular (config_data (py ''openai'') (py ''gpt-4'')))\<rparr>"
  have s: "save_configuration (py ''openai'') (py ''gpt-4'') (py ''sk-1'') ?w = (Inr (), ?w')"
    by (simp add: save_configuration_def write_env_file_def mkdir_config_dir_def
        write_config_file_def fresh_world_def)
  have f: "env_file ?w = Missing \<and> (\<forall>e. config_dir ?w = TurtleDir e \<longrightarrow> e = Missing)"
    by (simp add: fresh_world_def)
  from first_run_guard [of ?w ascii_int "py ''openai''" "py ''gpt-4''" "py ''sk-1''" ?w'] s f
  show ?thesis by simp
qed

section \<open>Validation of the configuration in \<open>main\<close>\<close>

text \<open>
  Claim C10, as amended. \<open>validate_config\<close> accepts a dictionary exactly when each of
  \<open>provider\<close>, \<open>model\<close> and \<open>api_key\<close> maps to a non-empty string. In \<open>main\<close> (without
  \<open>--setup\<close>, and when \<open>load_config\<close> returns), the dictionary that is validated has,
  under each of the three keys, the value of the command line option when that value
  is non-empty and the value loaded from the environment otherwise; when validation
  fails \<open>main\<close> exits with status 1, and only when it succeeds does control reach the
  construction of the client, the conversation manager and the tool registry.
\<close>

theorem main_validates_before_constructing:
  "(validate_config config \<longleftrightarrow>
      (\<exists>s. config (py ''provider'') = Some (Some s) \<and> s \<noteq> []) \<and>
      (\<exists>s. config (py ''model'') = Some (Some s) \<and> s \<noteq> []) \<and>
      (\<exists>s. config (py ''api_key'') = Some (Some s) \<and> s \<noteq> [])) \<and>
   (\<not> args_setup a \<and> load_config w = (Inr loaded, w') \<longrightarrow>
      (\<exists>c. c (py ''provider'') =
              (if truthy (args_provider a) then Some (args_provider a)
               else loaded (py ''provider'')) \<and>
           c (py ''model'') =
              (if truthy (args_model a) then Some (args_model a) else loaded (py ''model'')) \<and>
           c (py ''api_key'') =
              (if truthy (args_api_key a) then Some (args_api_key a)
               else loaded (py ''api_key'')) \<and>
           main int_of a w =
              (if validate_config c then (Components c, w') else (Exit 1, w'))))"
proof (intro conjI impI)
  show "validate_config config \<longleftrightarrow>
      (\<exists>s. config (py ''provider'') = Some (Some s) \<and> s \<noteq> []) \<and>
      (\<exists>s. config (py ''model'') = Some (Some s) \<and> s \<noteq> []) \<and>
      (\<exists>s. config (py ''api_key'') = Some (Some s) \<and> s \<noteq> [])"
    by (rule validate_config_iff)
next
  assume h: "\<not> args_setup a \<and> load_config w = (Inr loaded, w')"
  define c1 where "c1 = (if truthy (args_provider a)
      then loaded(py ''provider'' \<mapsto> args_provider a) else loaded)"
  define c2 where "c2 = (if truthy (args_model a) then c1(py ''model'' \<mapsto> args_model a) else c1)"
  define c3 where "c3 = (if truthy (args_api_key a)
      then c2(py ''api_key'' \<mapsto> args_api_key a) else c2)"
  have m: "main int_of a w = (if validate_config c3 then (Components c3, w') else (Exit 1, w'))"
    using h by (simp add: main_def Let_def c1_def c2_def c3_def)
  have "c3 (py ''provider'') =
      (if truthy (args_provider a) then Some (args_provider a) else loaded (py ''provider''))"
    "c3 (py ''model'') =
      (if truthy (args_model a) then Some (args_model a) else loaded (py ''model''))"
    "c3 (py ''api_key'') =
      (if truthy (args_api_key a) then Some (args_api_key a) else loaded (py ''api_key''))"
    by (simp_all add: c1_def c2_def c3_def)
  with m show "\<exists>c. c (py ''provider'') =
              (if truthy (args_provider a) then Some (args_provider a)
               else loaded (py ''provider'')) \<and>
           c (py ''model'') =
              (if truthy (args_model a) then Some (args_model a) else loaded (py ''model'')) \<and>
           c (py ''api_key'') =
              (if truthy (args_api_key a) then Some (args_api_key a)
               else loaded (py ''api_key'')) \<and>
           main int_of a w =
              (if validate_config c then (Components c, w') else (Exit 1, w'))"
    by blast
qed

text \<open>With only \<open>--model gpt-4\<close> and an empty environment, validation fails and
  \<open>main\<close> exits with status 1.\<close>

theorem main_validates_before_constructing_witness:
  "main ascii_int (no_args\<lparr>args_model := Some (py ''gpt-4'')\<rparr>) (fresh_world []) =
     (Exit 1, fresh_world [])"
proof -
  let ?a = "no_args\<lparr>args_model := Some (py ''gpt-4'')\<rparr>"
  let ?l = "[py ''provider'' \<mapsto> None, py ''model'' \<mapsto> None, py ''api_key'' \<mapsto> None]"
  have l: "load_config (fresh_world []) = (Inr ?l, fresh_world [])"
    by (simp add: load_config_no_env_file fresh_world_def)
  have s: "\<not> args_setup ?a" by (simp add: no_args_def)
  from main_validates_before_constructing [of ?l ?a "fresh_world []" ?l "fresh_world []" ascii_int]
    s l
  obtain c where c: "c (py ''provider'') = Some None"
    "main ascii_int ?a (fresh_world []) =
       (if validate_config c then (Components c, fresh_world []) else (Exit 1, fresh_world []))"
    by (auto simp: no_args_def truthy_def)
  from c(1) have "\<not> validate_config c"
    using main_validates_before_constructing [of c] by simp
  with c(2) show ?thesis by simp
qed

text \<open>The claim as it was written fails for an empty option value: with
  \<open>--provider ""\<close> the value of the environment is kept, and \<open>main\<close> goes on to the
  components; had the empty value replaced it, validation would have failed.\<close>

theorem main_keeps_environment_for_empty_option:
  "args_provider (no_args\<lparr>args_provider := Some []\<rparr>) = Some [] \<and>
   main ascii_int (no_args\<lparr>args_provider := Some []\<rparr>)
       ((fresh_world [])\<lparr>environ := configured_environ\<rparr>) =
     (Components [py ''provider'' \<mapsto> Some (py ''openai''), py ''model'' \<mapsto> Some (py ''gpt-4''),
                  py ''api_key'' \<mapsto> Some (py ''sk-1'')],
      (fresh_world [])\<lparr>environ := configured_environ\<rparr>) \<and>
   \<not> validate_config [py ''provider'' \<mapsto> Some [], py ''model'' \<mapsto> Some (py ''gpt-4''),
                  py ''api_key'' \<mapsto> Some (py ''sk-1'')]"
proof -
  let ?w = "(fresh_world [])\<lparr>environ := configured_environ\<rparr>"
  have l: "load_config ?w =
     (Inr [py ''provider'' \<mapsto> Some (py ''openai''), py ''model'' \<mapsto> Some (py ''gpt-4''),
           py ''api_key'' \<mapsto> Some (py ''sk-1'')], ?w)"
    by (simp add: load_config_no_env_file fresh_world_def configured_environ_def py_def)
  show ?thesis
    by (simp add: main_def l no_args_def truthy_def validate_config_iff py_def)
qed

section \<open>The transcript only grows\<close>

lemma append_message_Inr:
  "append_message c m = Inr c' \<Longrightarrow>
     c' = c\<lparr>messages := messages c @ [m]\<rparr>"
  by (auto simp: append_message_def split: if_splits option.splits)

lemma dispatch_extends:
  "dispatch reg calls st = (err, st') \<Longrightarrow>
     prefix (messages (conversation st)) (messages (conversation st'))"
proof (induction calls arbitrary: st)
  case Nil
  then show ?case by simp
next
  case (Cons call calls)
  obtain outcome env where r: "resolve reg call (environment st) = (outcome, env)" by force
  show ?case
  proof (cases "append_message (conversation st) (tool_result_message (invocation_id call) outcome)")
    case (Inl e)
    with Cons.prems r show ?thesis by auto
  next
    case (Inr conv)
    with Cons.prems r
    have "dispatch reg calls (st\<lparr>conversation := conv, environment := env\<rparr>) = (err, st')"
      by simp
    from Cons.IH [OF this] append_message_Inr [OF Inr] show ?thesis
      by (auto dest: append_prefixD)
  qed
qed

lemma tool_cycle_extends:
  "tool_cycle reg t calls st = (err, st') \<Longrightarrow>
     prefix (messages (conversation st)) (messages (conversation st'))"
  by (auto simp: tool_cycle_def split: sum.splits
      dest!: dispatch_extends append_message_Inr dest: append_prefixD)

lemma finish_extends:
  "finish t st = (err, st') \<Longrightarrow>
     prefix (messages (conversation st)) (messages (conversation st'))"
  by (auto simp: finish_def split: sum.splits dest!: append_message_Inr)

lemma cycles_extends:
  "cycles orch backend remaining n st = (res, st') \<Longrightarrow>
     prefix (messages (conversation st)) (messages (conversation st'))"
proof (induction remaining arbitrary: n st)
  case 0
  then show ?case
    by (subst (asm) cycles.simps)
       (auto split: response.splits if_splits prod.splits option.splits dest: finish_extends)
next
  case (Suc r)
  from Suc.prems show ?case
    by (subst (asm) cycles.simps)
       (auto split: response.splits if_splits prod.splits option.splits
          dest: finish_extends tool_cycle_extends
          dest!: Suc.IH intro: prefix_order.trans)
qed

lemma streaming_cycles_extends:
  "streaming_cycles orch backend remaining n st = (out, res, st') \<Longrightarrow>
     prefix (messages (conversation st)) (messages (conversation st'))"
proof (induction remaining arbitrary: n st out)
  case 0
  then show ?case
    by (subst (asm) streaming_cycles.simps)
       (auto split: stream.splits if_splits prod.splits option.splits dest: finish_extends)
next
  case (Suc r)
  from Suc.prems show ?case
    by (subst (asm) streaming_cycles.simps)
       (auto split: stream.splits if_splits prod.splits option.splits
          dest: finish_extends tool_cycle_extends
          dest!: Suc.IH intro: prefix_order.trans)
qed

lemma run_extends:
  "prefix (messages (conversation st)) (messages (conversation (snd (run orch backend t st))))"
proof (cases "append_message (conversation st) (user_message t)")
  case (Inl e)
  then show ?thesis by (simp add: run_def)
next
  case (Inr conv)
  obtain res st' where c: "cycles orch backend (max_cycles orch) 0 (st\<lparr>conversation := conv\<rparr>) = (res, st')"
    by force
  have "prefix (messages (conversation st)) (messages conv)"
    using append_message_Inr [OF Inr] by simp
  moreover have "prefix (messages conv) (messages (conversation st'))"
    using cycles_extends [OF c] by simp
  ultimately have "prefix (messages (conversation st)) (messages (conversation st'))"
    by (rule prefix_order.trans)
  then show ?thesis by (simp add: run_def Inr c)
qed

lemma run_streaming_extends:
  "prefix (messages (conversation st))
     (messages (conversation (snd (snd (run_streaming orch backend t st)))))"
proof (cases "append_message (conversation st) (user_message t)")
  case (Inl e)
  then show ?thesis by (simp add: run_streaming_def)
next
  case (Inr conv)
  obtain out res st' where
    c: "streaming_cycles orch backend (max_cycles orch) 0 (st\<lparr>conversation := conv\<rparr>) = (out, res, st')"
    by (metis prod_cases3)
  have "prefix (messages (conversation st)) (messages conv)"
    using append_message_Inr [OF Inr] by simp
  moreover have "prefix (messages conv) (messages (conversation st'))"
    using streaming_cycles_extends [OF c] by simp
  ultimately have "prefix (messages (conversation st)) (messages (conversation st'))"
    by (rule prefix_order.trans)
  then show ?thesis by (simp add: run_streaming_def Inr c)
qed

section \<open>Trimming\<close>

lemma messages_split: "system_part ms @ evictable ms = ms"
  by (cases ms) (simp_all add: system_part_def evictable_def)

lemma system_part_role: "m \<in> set (system_part ms) \<Longrightarrow> role m = System"
  by (cases ms) (auto simp: system_part_def split: if_splits)

lemma splits_pair_iff:
  "splits_pair k ms \<longleftrightarrow> (\<exists>x\<in>set (take k ms). \<exists>y\<in>set (drop k ms). paired x y)"
  by (simp add: splits_pair_def list_ex_iff)

lemma eviction_boundary_props:
  "eviction_boundary est c \<le> length (evictable (messages c)) \<and>
   \<not> splits_pair (eviction_boundary est c) (evictable (messages c)) \<and>
   (\<forall>j<eviction_boundary est c. \<not> admissible est c j) \<and>
   (eviction_boundary est c < length (evictable (messages c)) \<longrightarrow>
      admissible est c (eviction_boundary est c))"
proof (cases "find (admissible est c) [0..<length (evictable (messages c))]")
  case None
  then have k: "eviction_boundary est c = length (evictable (messages c))"
    by (simp add: eviction_boundary_def)
  from None have "\<forall>j<length (evictable (messages c)). \<not> admissible est c j"
    by (auto simp: find_None_iff)
  with k show ?thesis by (simp add: splits_pair_iff)
next
  case (Some i)
  then have k: "eviction_boundary est c = i" by (simp add: eviction_boundary_def)
  from Some have "i < length (evictable (messages c))" "admissible est c i"
    "\<forall>j<i. \<not> admissible est c j"
    by (auto simp: find_Some_iff)
  with k show ?thesis by (simp add: admissible_def)
qed

lemma in_evictable: "m \<in> set ms \<Longrightarrow> role m \<noteq> System \<Longrightarrow> m \<in> set (evictable ms)"
  by (cases ms) (auto simp: evictable_def)

lemma snapshot_pair:
  assumes "call \<in> set (messages c)" "result \<in> set (messages c)"
    and "role call = Assistant" "answers_call result call"
  shows "call \<in> set (snapshot est c) \<longleftrightarrow> result \<in> set (snapshot est c)"
proof -
  let ?rest = "evictable (messages c)" and ?k = "eviction_boundary est c"
  have rr: "role result = ToolResult" using assms(4) by (simp add: answers_call_def)
  have in_rest: "call \<in> set ?rest" "result \<in> set ?rest"
    using assms(1,2,3) rr by (simp_all add: in_evictable)
  have snap: "\<And>m. role m \<noteq> System \<Longrightarrow>
      m \<in> set (snapshot est c) \<longleftrightarrow> m \<in> set (drop ?k ?rest)"
    by (auto simp: snapshot_def dest: system_part_role)
  have nosplit: "\<not> splits_pair ?k ?rest" using eviction_boundary_props [of est c] by simp
  have cases: "\<And>m. m \<in> set ?rest \<Longrightarrow> m \<in> set (take ?k ?rest) \<or> m \<in> set (drop ?k ?rest)"
    using set_append [of "take ?k ?rest" "drop ?k ?rest"] by auto
  have p: "paired result call" "paired call result"
    using assms(4) by (simp_all add: paired_def)
  have "call \<in> set (drop ?k ?rest) \<longleftrightarrow> result \<in> set (drop ?k ?rest)"
    using nosplit cases [OF in_rest(1)] cases [OF in_rest(2)] p
    unfolding splits_pair_iff by blast
  then show ?thesis using snap assms(3) rr by simp
qed


section \<open>Dispatching the requests of a reply\<close>

lemma tool_results_answers:
  "map answers (tool_results reg calls env) = map (\<lambda>call. Some (invocation_id call)) calls"
  by (induction calls arbitrary: env)
     (auto simp: tool_result_message_def split: prod.splits)

lemma tool_results_role:
  "r \<in> set (tool_results reg calls env) \<Longrightarrow> role r = ToolResult \<and> tool_calls r = []"
  by (induction calls arbitrary: env)
     (auto simp: tool_result_message_def split: prod.splits)

lemma requested_ids_append [simp]:
  "requested_ids (ms @ ms') = requested_ids ms @ requested_ids ms'"
  by (simp add: requested_ids_def)

lemma answered_ids_append [simp]:
  "answered_ids (ms @ ms') = answered_ids ms @ answered_ids ms'"
  by (simp add: answered_ids_def)

lemma ids_of_result [simp]:
  "requested_ids [tool_result_message i outcome] = []"
  "answered_ids [tool_result_message i outcome] = [i]"
  by (simp_all add: requested_ids_def answered_ids_def tool_result_message_def)

lemma ids_of_assistant [simp]:
  "requested_ids [assistant_message t calls] = map invocation_id calls"
  "answered_ids [assistant_message t calls] = []"
  by (simp_all add: requested_ids_def answered_ids_def assistant_message_def)

lemma append_result:
  "append_message c (tool_result_message i outcome) =
     (if open_invocation (messages c) i
      then Inr (c\<lparr>messages := messages c @ [tool_result_message i outcome]\<rparr>)
      else Inl DanglingToolResult)"
  by (simp add: append_message_def tool_result_message_def)

lemma append_assistant:
  "append_message c (assistant_message t calls) =
     Inr (c\<lparr>messages := messages c @ [assistant_message t calls]\<rparr>)"
  by (simp add: append_message_def assistant_message_def)

text \<open>What a dispatch appends is always the results of a prefix of the requests, in
  the order of the requests.\<close>

lemma dispatch_appends:
  "dispatch reg calls st = (err, st') \<Longrightarrow>
     \<exists>n\<le>length calls.
       messages (conversation st') =
         messages (conversation st) @ tool_results reg (take n calls) (environment st) \<and>
       (err = None \<longleftrightarrow> n = length calls)"
proof (induction calls arbitrary: st)
  case Nil
  then show ?case by auto
next
  case (Cons call calls)
  obtain outcome env where r: "resolve reg call (environment st) = (outcome, env)" by force
  show ?case
  proof (cases "open_invocation (messages (conversation st)) (invocation_id call)")
    case False
    with Cons.prems r have "err = Some DanglingToolResult"
      "messages (conversation st') = messages (conversation st)"
      by (auto simp: append_result)
    then show ?thesis by (intro exI [of _ 0]) simp
  next
    case True
    let ?st1 = "st\<lparr>conversation := (conversation st)\<lparr>messages := messages (conversation st) @
        [tool_result_message (invocation_id call) outcome]\<rparr>, environment := env\<rparr>"
    from True Cons.prems r have "dispatch reg calls ?st1 = (err, st')"
      by (simp add: append_result)
    from Cons.IH [OF this] obtain n where n: "n \<le> length calls"
      "messages (conversation st') =
         messages (conversation ?st1) @ tool_results reg (take n calls) (environment ?st1)"
      "err = None \<longleftrightarrow> n = length calls" by blast
    show ?thesis
      by (intro exI [of _ "Suc n"]) (use n r in simp)
  qed
qed

lemma dispatch_error:
  "dispatch reg calls st = (err, st') \<Longrightarrow> err = None \<or> err = Some DanglingToolResult"
proof (induction calls arbitrary: st)
  case Nil
  then show ?case by simp
next
  case (Cons call calls)
  obtain outcome env where r: "resolve reg call (environment st) = (outcome, env)" by force
  show ?case
  proof (cases "open_invocation (messages (conversation st)) (invocation_id call)")
    case False
    with Cons.prems r show ?thesis by (auto simp: append_result)
  next
    case True
    with Cons.prems r show ?thesis by (auto simp: append_result dest: Cons.IH)
  qed
qed

text \<open>A dispatch completes exactly when the ids of the requests are distinct and each
  of them is open.\<close>

lemma dispatch_completes_iff:
  "fst (dispatch reg calls st) = None \<longleftrightarrow>
     distinct (map invocation_id calls) \<and>
     (\<forall>call\<in>set calls. open_invocation (messages (conversation st)) (invocation_id call))"
proof (induction calls arbitrary: st)
  case Nil
  show ?case by simp
next
  case (Cons call calls)
  obtain outcome env where r: "resolve reg call (environment st) = (outcome, env)" by force
  show ?case
  proof (cases "open_invocation (messages (conversation st)) (invocation_id call)")
    case False
    with r show ?thesis by (simp add: append_result)
  next
    case True
    let ?st1 = "st\<lparr>conversation := (conversation st)\<lparr>messages := messages (conversation st) @
        [tool_result_message (invocation_id call) outcome]\<rparr>, environment := env\<rparr>"
    have step: "dispatch reg (call # calls) st = dispatch reg calls ?st1"
      using True r by (simp add: append_result)
    have o: "open_invocation (messages (conversation ?st1)) i \<longleftrightarrow>
        open_invocation (messages (conversation st)) i \<and> i \<noteq> invocation_id call" for i
      by (auto simp: open_invocation_def)
    show ?thesis
      unfolding step Cons.IH o using True by (auto simp: image_iff)
  qed
qed

lemma tool_cycle_dispatch:
  "tool_cycle reg t calls st =
     dispatch reg calls
       (st\<lparr>conversation := (conversation st)
             \<lparr>messages := messages (conversation st) @ [assistant_message t calls]\<rparr>\<rparr>)"
  by (simp add: tool_cycle_def append_assistant)

lemma ids_of_results:
  "requested_ids (tool_results reg calls env) = []"
  "answered_ids (tool_results reg calls env) = map invocation_id calls"
  by (induction calls arbitrary: env)
     (auto simp: requested_ids_def answered_ids_def tool_result_message_def split: prod.splits)

lemma assistants_of_results:
  "filter (\<lambda>m. role m = Assistant) (tool_results reg calls env) = []"
  by (induction calls arbitrary: env)
     (auto simp: tool_result_message_def split: prod.splits)

lemma tool_cycle_completes:
  assumes "distinct (map invocation_id calls)"
    and "set (map invocation_id calls) \<inter> set (answered_ids (messages (conversation st))) = {}"
  shows "\<exists>st'. tool_cycle reg t calls st = (None, st') \<and>
           messages (conversation st') =
             messages (conversation st) @
             assistant_message t calls # tool_results reg calls (environment st)"
proof -
  obtain err st' where c: "tool_cycle reg t calls st = (err, st')" by force
  have "fst (tool_cycle reg t calls st) = None"
    unfolding tool_cycle_dispatch dispatch_completes_iff
    using assms by (auto simp: open_invocation_def)
  with c have e: "err = None" by simp
  from c dispatch_appends [of reg calls _ err st'] e
  have "messages (conversation st') =
      messages (conversation st) @
      assistant_message t calls # tool_results reg calls (environment st)"
    unfolding tool_cycle_dispatch by force
  with c e show ?thesis by simp
qed

lemma cycles_exceed:
  assumes H: "\<forall>n snap. \<exists>t calls.
        backend n snap (schemas (registry orch)) = Replied t calls \<and> calls \<noteq> [] \<and>
        distinct (map invocation_id calls) \<and> set (map invocation_id calls) \<subseteq> fresh n"
    and D: "\<forall>n m. n \<noteq> m \<longrightarrow> fresh n \<inter> fresh m = {}"
    and I: "\<forall>m\<ge>n. fresh m \<inter> set (answered_ids (messages (conversation st))) = {}"
  shows "\<exists>st' appended.
           cycles orch backend remaining n st = (Inl ToolLoopExceeded, st') \<and>
           messages (conversation st') = messages (conversation st) @ appended \<and>
           length (filter (\<lambda>m. role m = Assistant) appended) = remaining \<and>
           answered_ids appended = requested_ids appended"
  using I
proof (induction remaining arbitrary: n st)
  case 0
  from H obtain t calls where
    r: "backend n (snapshot (estimate orch) (conversation st)) (schemas (registry orch)) =
          Replied t calls" "calls \<noteq> []"
    by blast
  then have "cycles orch backend 0 n st = (Inl ToolLoopExceeded, st)"
    by (subst cycles.simps) simp
  then show ?case by (simp add: requested_ids_def answered_ids_def)
next
  case (Suc r)
  from H obtain t calls where
    b: "backend n (snapshot (estimate orch) (conversation st)) (schemas (registry orch)) =
          Replied t calls" "calls \<noteq> []" "distinct (map invocation_id calls)"
       "set (map invocation_id calls) \<subseteq> fresh n"
    by blast
  from Suc.prems b(4)
  have "set (map invocation_id calls) \<inter> set (answered_ids (messages (conversation st))) = {}"
    by blast
  from tool_cycle_completes [OF b(3) this, of "registry orch" t] obtain st1 where
    c: "tool_cycle (registry orch) t calls st = (None, st1)"
       "messages (conversation st1) =
          messages (conversation st) @
          assistant_message t calls # tool_results (registry orch) calls (environment st)"
    by blast
  have step: "cycles orch backend (Suc r) n st = cycles orch backend r (Suc n) st1"
    by (subst cycles.simps) (simp add: b c)
  have inv: "\<forall>m\<ge>Suc n. fresh m \<inter> set (answered_ids (messages (conversation st1))) = {}"
  proof (intro allI impI)
    fix m assume m: "Suc n \<le> m"
    then have "fresh m \<inter> fresh n = {}" using D by simp
    with b(4) have "fresh m \<inter> set (map invocation_id calls) = {}" by blast
    moreover from m Suc.prems have
      "fresh m \<inter> set (answered_ids (messages (conversation st))) = {}" by simp
    ultimately show "fresh m \<inter> set (answered_ids (messages (conversation st1))) = {}"
      unfolding c(2) using answered_ids_append [of "messages (conversation st)"
          "assistant_message t calls # tool_results (registry orch) calls (environment st)"]
        answered_ids_append [of "[assistant_message t calls]"
          "tool_results (registry orch) calls (environment st)"]
      by (simp add: ids_of_results Int_Un_distrib)
  qed
  from Suc.IH [OF inv] obtain st' appended where
    ih: "cycles orch backend r (Suc n) st1 = (Inl ToolLoopExceeded, st')"
        "messages (conversation st') = messages (conversation st1) @ appended"
        "length (filter (\<lambda>m. role m = Assistant) appended) = r"
        "answered_ids appended = requested_ids appended"
    by blast
  let ?seg = "assistant_message t calls # tool_results (registry orch) calls (environment st)"
  have seg: "answered_ids ?seg = requested_ids ?seg"
    using answered_ids_append [of "[assistant_message t calls]"
        "tool_results (registry orch) calls (environment st)"]
      requested_ids_append [of "[assistant_message t calls]"
        "tool_results (registry orch) calls (environment st)"]
    by (simp add: ids_of_results)
  have cnt: "length (filter (\<lambda>m. role m = Assistant) ?seg) = 1"
    by (simp add: assistants_of_results assistant_message_def)
  have m: "messages (conversation st') = messages (conversation st) @ (?seg @ appended)"
    using ih(2) c(2) by simp
  have k: "length (filter (\<lambda>m. role m = Assistant) (?seg @ appended)) = Suc r"
    using cnt ih(3) by (simp only: filter_append length_append)
  have i: "answered_ids (?seg @ appended) = requested_ids (?seg @ appended)"
    using seg ih(4) by (simp only: answered_ids_append requested_ids_append)
  have "cycles orch backend (Suc r) n st = (Inl ToolLoopExceeded, st')"
    using step ih(1) by simp
  with m k i show ?case
    by (intro exI [of _ st'] exI [of _ "?seg @ appended"] conjI)
qed

section \<open>One cycle of the loops, and a whole run\<close>

lemma finish_appends:
  "finish t st =
     (None, st\<lparr>conversation := (conversation st)
                 \<lparr>messages := messages (conversation st) @ [assistant_message t []]\<rparr>\<rparr>)"
  by (simp add: finish_def append_assistant)

lemma append_user:
  "append_message c (user_message t) = Inr (c\<lparr>messages := messages c @ [user_message t]\<rparr>)"
  by (simp add: append_message_def user_message_def)

lemma tool_cycle_fails:
  assumes "\<not> (distinct (map invocation_id calls) \<and>
      (\<forall>call\<in>set calls.
         invocation_id call \<notin> set (answered_ids (messages (conversation st)))))"
  shows "\<exists>k<length calls. \<exists>st'.
           tool_cycle reg t calls st = (Some DanglingToolResult, st') \<and>
           messages (conversation st') =
             messages (conversation st) @
             assistant_message t calls # tool_results reg (take k calls) (environment st)"
proof -
  obtain err st' where c: "tool_cycle reg t calls st = (err, st')" by force
  have "fst (tool_cycle reg t calls st) \<noteq> None"
    unfolding tool_cycle_dispatch dispatch_completes_iff
    using assms by (auto simp: open_invocation_def)
  with c have e: "err \<noteq> None" by simp
  from c have "err = None \<or> err = Some DanglingToolResult"
    unfolding tool_cycle_dispatch by (rule dispatch_error)
  with e have d: "err = Some DanglingToolResult" by blast
  from c dispatch_appends [of reg calls _ err st'] obtain k where
    k: "k \<le> length calls"
       "messages (conversation st') =
          messages (conversation st) @
          assistant_message t calls # tool_results reg (take k calls) (environment st)"
       "err = None \<longleftrightarrow> k = length calls"
    unfolding tool_cycle_dispatch by force
  from k(1,3) e have "k < length calls" by simp
  with c d k(2) show ?thesis by blast
qed

lemma tool_cycle_outcome:
  "if distinct (map invocation_id calls) \<and>
      (\<forall>call\<in>set calls.
         invocation_id call \<notin> set (answered_ids (messages (conversation st))))
   then \<exists>st1. tool_cycle reg t calls st = (None, st1) \<and>
          messages (conversation st1) =
            messages (conversation st) @
            assistant_message t calls # tool_results reg calls (environment st)
   else \<exists>k<length calls. \<exists>st'.
          tool_cycle reg t calls st = (Some DanglingToolResult, st') \<and>
          messages (conversation st') =
            messages (conversation st) @
            assistant_message t calls # tool_results reg (take k calls) (environment st)"
proof (cases "distinct (map invocation_id calls) \<and>
      (\<forall>call\<in>set calls.
         invocation_id call \<notin> set (answered_ids (messages (conversation st))))")
  case True
  then have "set (map invocation_id calls) \<inter> set (answered_ids (messages (conversation st))) = {}"
    by auto
  with True have "\<exists>st1. tool_cycle reg t calls st = (None, st1) \<and>
          messages (conversation st1) =
            messages (conversation st) @
            assistant_message t calls # tool_results reg calls (environment st)"
    by (intro tool_cycle_completes) simp_all
  then show ?thesis by (subst if_P [OF True])
next
  case False
  show ?thesis by (subst if_not_P [OF False]) (rule tool_cycle_fails [OF False])
qed

lemma cycles_step:
  assumes "backend n (snapshot (estimate orch) (conversation st)) (schemas (registry orch)) =
      Replied t calls" and "calls \<noteq> []"
  shows "cycles orch backend 0 n st = (Inl ToolLoopExceeded, st)"
    and "if distinct (map invocation_id calls) \<and>
            (\<forall>call\<in>set calls.
               invocation_id call \<notin> set (answered_ids (messages (conversation st))))
         then \<exists>st1. messages (conversation st1) =
                  messages (conversation st) @
                  assistant_message t calls #
                  tool_results (registry orch) calls (environment st) \<and>
                cycles orch backend (Suc r) n st = cycles orch backend r (Suc n) st1
         else \<exists>k<length calls. \<exists>st'.
                cycles orch backend (Suc r) n st = (Inl DanglingToolResult, st') \<and>
                messages (conversation st') =
                  messages (conversation st) @
                  assistant_message t calls #
                  tool_results (registry orch) (take k calls) (environment st)"
proof -
  show "cycles orch backend 0 n st = (Inl ToolLoopExceeded, st)"
    by (subst cycles.simps) (simp add: assms)
  have u: "cycles orch backend (Suc r) n st =
      (case tool_cycle (registry orch) t calls st of
         (Some err, st') \<Rightarrow> (Inl err, st')
       | (None, st') \<Rightarrow> cycles orch backend r (Suc n) st')"
    by (subst cycles.simps) (simp add: assms)
  from tool_cycle_outcome [of calls st "registry orch" t]
  show "if distinct (map invocation_id calls) \<and>
            (\<forall>call\<in>set calls.
               invocation_id call \<notin> set (answered_ids (messages (conversation st))))
         then \<exists>st1. messages (conversation st1) =
                  messages (conversation st) @
                  assistant_message t calls #
                  tool_results (registry orch) calls (environment st) \<and>
                cycles orch backend (Suc r) n st = cycles orch backend r (Suc n) st1
         else \<exists>k<length calls. \<exists>st'.
                cycles orch backend (Suc r) n st = (Inl DanglingToolResult, st') \<and>
                messages (conversation st') =
                  messages (conversation st) @
                  assistant_message t calls #
                  tool_results (registry orch) (take k calls) (environment st)"
    unfolding u by (auto split: if_splits)
qed

lemma streaming_cycles_step:
  assumes "backend n (snapshot (estimate orch) (conversation st)) (schemas (registry orch)) =
      Stream fs" and "completed_calls fs \<noteq> []"
  shows "streaming_cycles orch backend 0 n st = (text_fragments fs, Some ToolLoopExceeded, st)"
    and "if distinct (map invocation_id (completed_calls fs)) \<and>
            (\<forall>call\<in>set (completed_calls fs).
               invocation_id call \<notin> set (answered_ids (messages (conversation st))))
         then \<exists>st1. messages (conversation st1) =
                  messages (conversation st) @
                  assistant_message (concat (text_fragments fs)) (completed_calls fs) #
                  tool_results (registry orch) (completed_calls fs) (environment st) \<and>
                streaming_cycles orch backend (Suc r) n st =
                  (case streaming_cycles orch backend r (Suc n) st1 of
                     (out, res) \<Rightarrow> (text_fragments fs @ out, res))
         else \<exists>k<length (completed_calls fs). \<exists>st'.
                streaming_cycles orch backend (Suc r) n st =
                  (text_fragments fs, Some DanglingToolResult, st') \<and>
                messages (conversation st') =
                  messages (conversation st) @
                  assistant_message (concat (text_fragments fs)) (completed_calls fs) #
                  tool_results (registry orch) (take k (completed_calls fs)) (environment st)"
proof -
  show "streaming_cycles orch backend 0 n st = (text_fragments fs, Some ToolLoopExceeded, st)"
    by (subst streaming_cycles.simps) (simp add: assms)
  have u: "streaming_cycles orch backend (Suc r) n st =
      (case tool_cycle (registry orch) (concat (text_fragments fs)) (completed_calls fs) st of
         (Some err, st') \<Rightarrow> (text_fragments fs, Some err, st')
       | (None, st') \<Rightarrow>
           (case streaming_cycles orch backend r (Suc n) st' of
              (out, res) \<Rightarrow> (text_fragments fs @ out, res)))"
    by (subst streaming_cycles.simps) (simp add: assms)
  from tool_cycle_outcome [of "completed_calls fs" st "registry orch" "concat (text_fragments fs)"]
  show "if distinct (map invocation_id (completed_calls fs)) \<and>
            (\<forall>call\<in>set (completed_calls fs).
               invocation_id call \<notin> set (answered_ids (messages (conversation st))))
         then \<exists>st1. messages (conversation st1) =
                  messages (conversation st) @
                  assistant_message (concat (text_fragments fs)) (completed_calls fs) #
                  tool_results (registry orch) (completed_calls fs) (environment st) \<and>
                streaming_cycles orch backend (Suc r) n st =
                  (case streaming_cycles orch backend r (Suc n) st1 of
                     (out, res) \<Rightarrow> (text_fragments fs @ out, res))
         else \<exists>k<length (completed_calls fs). \<exists>st'.
                streaming_cycles orch backend (Suc r) n st =
                  (text_fragments fs, Some DanglingToolResult, st') \<and>
                messages (conversation st') =
                  messages (conversation st) @
                  assistant_message (concat (text_fragments fs)) (completed_calls fs) #
                  tool_results (registry orch) (take k (completed_calls fs)) (environment st)"
    unfolding u by (auto split: if_splits)
qed


lemma cycles_rounds:
  "cycles orch backend remaining n st = (res, st') \<Longrightarrow>
     \<exists>rounds last.
       length rounds \<le> remaining \<and>
       messages (conversation st') =
         messages (conversation st) @
         concat (map (cycle_messages (registry orch)) rounds) @ last \<and>
       (case res of
          Inr t \<Rightarrow> last = [assistant_message t []]
        | Inl err \<Rightarrow>
            if err = DanglingToolResult
            then \<exists>t calls env k. k < length calls \<and>
                   last = assistant_message t calls #
                          tool_results (registry orch) (take k calls) env
            else last = [])"
proof (induction remaining arbitrary: n st)
  case 0
  show ?case
  proof (cases "backend n (snapshot (estimate orch) (conversation st)) (schemas (registry orch))")
    case (BackendFailed d)
    with 0 have "res = Inl (BackendFailure d n)" "st' = st"
      by (subst (asm) cycles.simps, simp)+
    then show ?thesis by - (rule exI [of _ "[]"], rule exI [of _ "[]"], simp)
  next
    case (Replied t calls)
    show ?thesis
    proof (cases "calls = []")
      case True
      with 0 Replied have "res = Inr t"
        "st' = st\<lparr>conversation := (conversation st)
                 \<lparr>messages := messages (conversation st) @ [assistant_message t []]\<rparr>\<rparr>"
        by (subst (asm) cycles.simps, simp add: finish_appends)+
      then show ?thesis
        by - (rule exI [of _ "[]"], rule exI [of _ "[assistant_message t []]"], simp)
    next
      case False
      from cycles_step(1) [where backend = backend and orch = orch and n = n and st = st,
          OF Replied False] 0
      have "res = Inl ToolLoopExceeded" "st' = st" by simp_all
      then show ?thesis by - (rule exI [of _ "[]"], rule exI [of _ "[]"], simp)
    qed
  qed
next
  case (Suc r)
  show ?case
  proof (cases "backend n (snapshot (estimate orch) (conversation st)) (schemas (registry orch))")
    case (BackendFailed d)
    with Suc.prems have "res = Inl (BackendFailure d n)" "st' = st"
      by (subst (asm) cycles.simps, simp)+
    then show ?thesis by - (rule exI [of _ "[]"], rule exI [of _ "[]"], simp)
  next
    case (Replied t calls)
    show ?thesis
    proof (cases "calls = []")
      case True
      with Suc.prems Replied have "res = Inr t"
        "st' = st\<lparr>conversation := (conversation st)
                 \<lparr>messages := messages (conversation st) @ [assistant_message t []]\<rparr>\<rparr>"
        by (subst (asm) cycles.simps, simp add: finish_appends)+
      then show ?thesis
        by - (rule exI [of _ "[]"], rule exI [of _ "[assistant_message t []]"], simp)
    next
      case False
      note step = cycles_step(2) [where backend = backend and orch = orch and n = n and st = st
          and r = r, OF Replied False]
      show ?thesis
      proof (cases "distinct (map invocation_id calls) \<and>
            (\<forall>call\<in>set calls.
               invocation_id call \<notin> set (answered_ids (messages (conversation st))))")
        case True
        from step obtain st1 where
          s: "messages (conversation st1) =
                messages (conversation st) @
                assistant_message t calls #
                tool_results (registry orch) calls (environment st)"
             "cycles orch backend (Suc r) n st = cycles orch backend r (Suc n) st1"
          by (subst (asm) if_P [OF True]) blast
        from s(2) Suc.prems have "cycles orch backend r (Suc n) st1 = (res, st')" by simp
        from Suc.IH [OF this] obtain rounds last where
          ih: "length rounds \<le> r"
              "messages (conversation st') =
                 messages (conversation st1) @
                 concat (map (cycle_messages (registry orch)) rounds) @ last"
              "(case res of
                  Inr t \<Rightarrow> last = [assistant_message t []]
                | Inl err \<Rightarrow>
                    if err = DanglingToolResult
                    then \<exists>t calls env k. k < length calls \<and>
                           last = assistant_message t calls #
                                  tool_results (registry orch) (take k calls) env
                    else last = [])"
          by blast
        from ih(1) have l: "length ((t, calls, environment st) # rounds) \<le> Suc r" by simp
        from ih(2) s(1) have m: "messages (conversation st') =
            messages (conversation st) @
            concat (map (cycle_messages (registry orch)) ((t, calls, environment st) # rounds)) @
            last"
          by (simp add: cycle_messages_def)
        from l m ih(3) show ?thesis by blast
      next
        case bad: False
        from step obtain k st2 where
          s: "k < length calls"
             "cycles orch backend (Suc r) n st = (Inl DanglingToolResult, st2)"
             "messages (conversation st2) =
                messages (conversation st) @
                assistant_message t calls #
                tool_results (registry orch) (take k calls) (environment st)"
          by (subst (asm) if_not_P [OF bad]) blast
        from s(2) Suc.prems have r: "res = Inl DanglingToolResult" "st' = st2" by simp_all
        have "\<exists>t' calls' env k'. k' < length calls' \<and>
            assistant_message t calls #
              tool_results (registry orch) (take k calls) (environment st) =
            assistant_message t' calls' # tool_results (registry orch) (take k' calls') env"
          using s(1) by blast
        with r s(3) show ?thesis
          by - (rule exI [of _ "[]"],
                rule exI [of _ "assistant_message t calls #
                  tool_results (registry orch) (take k calls) (environment st)"], simp)
      qed
    qed
  qed
qed


lemma streaming_cycles_rounds:
  "streaming_cycles orch backend remaining n st = (out, res, st') \<Longrightarrow>
     \<exists>rounds last.
       length rounds \<le> remaining \<and>
       messages (conversation st') =
         messages (conversation st) @
         concat (map (cycle_messages (registry orch)) rounds) @ last \<and>
       (case res of
          None \<Rightarrow> (\<exists>t. last = [assistant_message t []])
        | Some err \<Rightarrow>
            if err = DanglingToolResult
            then \<exists>t calls env k. k < length calls \<and>
                   last = assistant_message t calls #
                          tool_results (registry orch) (take k calls) env
            else last = [])"
proof (induction remaining arbitrary: n st out)
  case 0
  show ?case
  proof (cases "backend n (snapshot (estimate orch) (conversation st)) (schemas (registry orch))")
    case (BrokenStream fs d)
    with 0 have "res = Some (BackendFailure d n)" "st' = st"
      by (subst (asm) streaming_cycles.simps, simp)+
    then show ?thesis by - (rule exI [of _ "[]"], rule exI [of _ "[]"], simp)
  next
    case (Stream fs)
    show ?thesis
    proof (cases "completed_calls fs = []")
      case True
      with 0 Stream have "res = None"
        "st' = st\<lparr>conversation := (conversation st)
                 \<lparr>messages := messages (conversation st) @
                    [assistant_message (concat (text_fragments fs)) []]\<rparr>\<rparr>"
        by (subst (asm) streaming_cycles.simps, simp add: finish_appends)+
      then show ?thesis
        by - (rule exI [of _ "[]"],
              rule exI [of _ "[assistant_message (concat (text_fragments fs)) []]"], auto)
    next
      case False
      from streaming_cycles_step(1) [where backend = backend and orch = orch and n = n
          and st = st, OF Stream False] 0
      have "res = Some ToolLoopExceeded" "st' = st" by simp_all
      then show ?thesis by - (rule exI [of _ "[]"], rule exI [of _ "[]"], simp)
    qed
  qed
next
  case (Suc r)
  show ?case
  proof (cases "backend n (snapshot (estimate orch) (conversation st)) (schemas (registry orch))")
    case (BrokenStream fs d)
    with Suc.prems have "res = Some (BackendFailure d n)" "st' = st"
      by (subst (asm) streaming_cycles.simps, simp)+
    then show ?thesis by - (rule exI [of _ "[]"], rule exI [of _ "[]"], simp)
  next
    case (Stream fs)
    show ?thesis
    proof (cases "completed_calls fs = []")
      case True
      with Suc.prems Stream have "res = None"
        "st' = st\<lparr>conversation := (conversation st)
                 \<lparr>messages := messages (conversation st) @
                    [assistant_message (concat (text_fragments fs)) []]\<rparr>\<rparr>"
        by (subst (asm) streaming_cycles.simps, simp add: finish_appends)+
      then show ?thesis
        by - (rule exI [of _ "[]"],
              rule exI [of _ "[assistant_message (concat (text_fragments fs)) []]"], auto)
    next
      case False
      let ?t = "concat (text_fragments fs)"
      let ?calls = "completed_calls fs"
      note step = streaming_cycles_step(2) [where backend = backend and orch = orch
          and n = n and st = st and r = r, OF Stream False]
      show ?thesis
      proof (cases "distinct (map invocation_id ?calls) \<and>
            (\<forall>call\<in>set ?calls.
               invocation_id call \<notin> set (answered_ids (messages (conversation st))))")
        case True
        from step obtain st1 where
          s: "messages (conversation st1) =
                messages (conversation st) @
                assistant_message ?t ?calls #
                tool_results (registry orch) ?calls (environment st)"
             "streaming_cycles orch backend (Suc r) n st =
                (case streaming_cycles orch backend r (Suc n) st1 of
                   (out, res) \<Rightarrow> (text_fragments fs @ out, res))"
          by (subst (asm) if_P [OF True]) blast
        obtain out1 where "streaming_cycles orch backend r (Suc n) st1 = (out1, res, st')"
          using s(2) Suc.prems
          by (cases "streaming_cycles orch backend r (Suc n) st1") simp
        from Suc.IH [OF this] obtain rounds last where
          ih: "length rounds \<le> r"
              "messages (conversation st') =
                 messages (conversation st1) @
                 concat (map (cycle_messages (registry orch)) rounds) @ last"
              "(case res of
                  None \<Rightarrow> (\<exists>t. last = [assistant_message t []])
                | Some err \<Rightarrow>
                    if err = DanglingToolResult
                    then \<exists>t calls env k. k < length calls \<and>
                           last = assistant_message t calls #
                                  tool_results (registry orch) (take k calls) env
                    else last = [])"
          by blast
        from ih(1) have l: "length ((?t, ?calls, environment st) # rounds) \<le> Suc r" by simp
        from ih(2) s(1) have m: "messages (conversation st') =
            messages (conversation st) @
            concat (map (cycle_messages (registry orch))
              ((?t, ?calls, environment st) # rounds)) @
            last"
          by (simp add: cycle_messages_def)
        from l m ih(3) show ?thesis by blast
      next
        case bad: False
        from step obtain k st2 where
          s: "k < length ?calls"
             "streaming_cycles orch backend (Suc r) n st =
                (text_fragments fs, Some DanglingToolResult, st2)"
             "messages (conversation st2) =
                messages (conversation st) @
                assistant_message ?t ?calls #
                tool_results (registry orch) (take k ?calls) (environment st)"
          by (subst (asm) if_not_P [OF bad]) blast
        from s(2) Suc.prems have r: "res = Some DanglingToolResult" "st' = st2" by simp_all
        have "\<exists>t' calls' env k'. k' < length calls' \<and>
            assistant_message ?t ?calls #
              tool_results (registry orch) (take k ?calls) (environment st) =
            assistant_message t' calls' # tool_results (registry orch) (take k' calls') env"
          using s(1) by blast
        with r s(3) show ?thesis
          by - (rule exI [of _ "[]"],
                rule exI [of _ "assistant_message ?t ?calls #
                  tool_results (registry orch) (take k ?calls) (environment st)"], simp)
      qed
    qed
  qed
qed

lemma run_rounds:
  assumes "run orch backend user_text st = (res, st')"
  shows "\<exists>rounds last.
       length rounds \<le> max_cycles orch \<and>
       messages (conversation st') =
         messages (conversation st) @ user_message user_text #
         concat (map (cycle_messages (registry orch)) rounds) @ last \<and>
       (case res of
          Inr t \<Rightarrow> last = [assistant_message t []]
        | Inl err \<Rightarrow>
            if err = DanglingToolResult
            then \<exists>t calls env k. k < length calls \<and>
                   last = assistant_message t calls #
                          tool_results (registry orch) (take k calls) env
            else last = [])"
proof -
  let ?st1 = "st\<lparr>conversation := (conversation st)
      \<lparr>messages := messages (conversation st) @ [user_message user_text]\<rparr>\<rparr>"
  from assms have "cycles orch backend (max_cycles orch) 0 ?st1 = (res, st')"
    by (simp add: run_def append_user)
  from cycles_rounds [OF this] show ?thesis by simp
qed

lemma run_streaming_rounds:
  assumes "run_streaming orch backend user_text st = (out, res, st')"
  shows "\<exists>rounds last.
       length rounds \<le> max_cycles orch \<and>
       messages (conversation st') =
         messages (conversation st) @ user_message user_text #
         concat (map (cycle_messages (registry orch)) rounds) @ last \<and>
       (case res of
          None \<Rightarrow> (\<exists>t. last = [assistant_message t []])
        | Some err \<Rightarrow>
            if err = DanglingToolResult
            then \<exists>t calls env k. k < length calls \<and>
                   last = assistant_message t calls #
                          tool_results (registry orch) (take k calls) env
            else last = [])"
proof -
  let ?st1 = "st\<lparr>conversation := (conversation st)
      \<lparr>messages := messages (conversation st) @ [user_message user_text]\<rparr>\<rparr>"
  from assms have "streaming_cycles orch backend (max_cycles orch) 0 ?st1 = (out, res, st')"
    by (simp add: run_streaming_def append_user)
  from streaming_cycles_rounds [OF this] show ?thesis by simp
qed

section \<open>The order of the requests of a streamed reply\<close>

lemma buffer_fragment_extends:
  "open_in i buf \<Longrightarrow> map fst (buffer_fragment i n a f buf) = map fst buf"
  by (induction i n a f buf rule: buffer_fragment.induct) auto

lemma buffer_fragment_opens:
  "\<not> open_in i buf \<Longrightarrow> map fst (buffer_fragment i n a f buf) = map fst buf @ [i]"
  by (induction i n a f buf rule: buffer_fragment.induct) auto

lemma buffer_fragment_complete:
  "complete_in j (buffer_fragment i n a f buf) \<longleftrightarrow> complete_in j buf \<or> f \<and> j = i"
  by (induction i n a f buf rule: buffer_fragment.induct) auto

lemma in_buffer: "i \<in> fst ` set buf \<longleftrightarrow> open_in i buf \<or> complete_in i buf"
  by (induction i buf rule: open_in.induct) auto

lemma filter_absent:
  "i \<in> S \<Longrightarrow> filter (\<lambda>j. j \<notin> S) (filter (\<lambda>j. j \<noteq> i) xs) = filter (\<lambda>j. j \<notin> S) xs"
  by (induction xs) auto

lemma accumulate_ids:
  assumes "\<forall>j\<in>set (call_ids fs). \<not> complete_in j buf" and "closes_once fs"
  shows "map fst (accumulate fs buf) =
     map fst buf @ filter (\<lambda>j. j \<notin> fst ` set buf) (first_ids fs)"
  using assms
proof (induction fs buf rule: accumulate.induct)
  case (1 buf)
  then show ?case by simp
next
  case (2 t fs buf)
  then show ?case by simp
next
  case (3 i n a finished fs buf)
  let ?buf = "buffer_fragment i n a finished buf"
  have "\<forall>j\<in>set (call_ids fs). \<not> complete_in j ?buf"
    unfolding buffer_fragment_complete using "3.prems" by auto
  moreover from "3.prems" have "closes_once fs" by simp
  ultimately have ih: "map fst (accumulate fs ?buf) =
      map fst ?buf @ filter (\<lambda>j. j \<notin> fst ` set ?buf) (first_ids fs)"
    by (rule "3.IH")
  have s: "fst ` set ?buf = set (map fst ?buf)" "fst ` set buf = set (map fst buf)"
    by simp_all
  from "3.prems"(1) have nc: "\<not> complete_in i buf" by simp
  show ?case
  proof (cases "open_in i buf")
    case True
    then have m: "map fst ?buf = map fst buf" by (rule buffer_fragment_extends)
    have "fst ` set ?buf = fst ` set buf" by (simp only: s m)
    with ih m have "map fst (accumulate fs ?buf) =
        map fst buf @ filter (\<lambda>j. j \<notin> fst ` set buf) (first_ids fs)"
      by simp
    moreover from True have "i \<in> fst ` set buf" by (simp add: in_buffer)
    ultimately show ?thesis by (simp add: filter_absent del: filter_filter)
  next
    case False
    then have m: "map fst ?buf = map fst buf @ [i]" by (rule buffer_fragment_opens)
    have "fst ` set ?buf = insert i (fst ` set buf)" by (simp only: s m) simp
    with ih m have "map fst (accumulate fs ?buf) =
        map fst buf @ i # filter (\<lambda>j. j \<notin> insert i (fst ` set buf)) (first_ids fs)"
      by simp
    moreover from False nc have "i \<notin> fst ` set buf" by (simp add: in_buffer)
    ultimately show ?thesis by simp
  qed
qed

lemma accumulate_complete:
  "complete_in j (accumulate fs buf) \<longleftrightarrow> complete_in j buf \<or> j \<in> set (finished_ids fs)"
  by (induction fs buf rule: accumulate.induct) (auto simp: buffer_fragment_complete)

lemma first_ids_distinct: "distinct (first_ids fs)"
  by (induction fs rule: first_ids.induct) auto

lemma complete_entries:
  "distinct (map fst es) \<Longrightarrow>
     map fst (filter (\<lambda>(i, n, a, complete). complete) es) =
     filter (\<lambda>i. complete_in i es) (map fst es)"
proof (induction es)
  case Nil
  then show ?case by simp
next
  case (Cons e es)
  obtain i n a c where e: "e = (i, n, a, c)" by (cases e)
  from Cons.prems e have d: "i \<notin> fst ` set es" "distinct (map fst es)" by auto
  have "filter (\<lambda>j. complete_in j (e # es)) (map fst es) =
      filter (\<lambda>j. complete_in j es) (map fst es)"
    using d(1) e by (intro filter_cong) auto
  moreover have "complete_in i (e # es) \<longleftrightarrow> c"
    using d(1) e by (simp add: in_buffer)
  ultimately show ?case using Cons.IH [OF d(2)] e by (cases c) simp_all
qed

lemma completed_calls_order:
  assumes "closes_once fs"
  shows "map invocation_id (completed_calls fs) =
     filter (\<lambda>i. i \<in> set (finished_ids fs)) (first_ids fs)"
proof -
  have i: "map fst (accumulate fs []) = first_ids fs"
    using accumulate_ids [of fs "[]"] assms by simp
  then have d: "distinct (map fst (accumulate fs []))" by (simp add: first_ids_distinct)
  have "map invocation_id (completed_calls fs) =
      map fst (filter (\<lambda>(i, n, a, complete). complete) (accumulate fs []))"
    by (simp add: completed_calls_def case_prod_unfold o_def)
  also have "\<dots> = filter (\<lambda>i. complete_in i (accumulate fs [])) (first_ids fs)"
    using complete_entries [OF d] i by simp
  also have "\<dots> = filter (\<lambda>i. i \<in> set (finished_ids fs)) (first_ids fs)"
    by (simp add: accumulate_complete)
  finally show ?thesis .
qed

section \<open>Order of the tool results\<close>

text \<open>
  Claim C2, as amended. Take a reply with tool-call requests that a loop receives: in
  the synchronous loop the reply of the backend, in the streaming loop the requests that
  the streamed reply completed, which are kept in the order of their first fragments
  when no request receives a fragment after the one that completes it. When no cycle
  remains under the ceiling, the loop appends nothing and fails with
  \<open>ToolLoopExceeded\<close>. When a cycle remains and the invocation ids of the reply are
  pairwise distinct and none of them is already answered in the transcript, the loop
  appends the assistant message and then exactly one tool-result per request, in the
  order the model issued the requests, each answering the invocation id of its request,
  and only then asks the backend again. When a cycle remains and an id is repeated or
  already answered, the loop appends the assistant message and the tool-results of a
  proper prefix of the requests, and fails with \<open>DanglingToolResult\<close>. So what a whole
  run appends after the user message is a sequence of at most \<open>max_cycles\<close> completed
  cycles, followed by the final assistant message when the run succeeds, by one such
  partial cycle when it fails with \<open>DanglingToolResult\<close>, and by nothing when it fails
  otherwise.
\<close>

theorem tool_results_follow_requests:
  "(backend n (snapshot (estimate orch) (conversation st)) (schemas (registry orch)) =
      Replied t calls \<and> calls \<noteq> [] \<longrightarrow>
      cycles orch backend 0 n st = (Inl ToolLoopExceeded, st) \<and>
      (if distinct (map invocation_id calls) \<and>
          (\<forall>call\<in>set calls.
             invocation_id call \<notin> set (answered_ids (messages (conversation st))))
       then \<exists>st1. messages (conversation st1) =
                messages (conversation st) @
                assistant_message t calls #
                tool_results (registry orch) calls (environment st) \<and>
              cycles orch backend (Suc r) n st = cycles orch backend r (Suc n) st1
       else \<exists>k<length calls. \<exists>st2.
              cycles orch backend (Suc r) n st = (Inl DanglingToolResult, st2) \<and>
              messages (conversation st2) =
                messages (conversation st) @
                assistant_message t calls #
                tool_results (registry orch) (take k calls) (environment st))) \<and>
   (sbackend n (snapshot (estimate orch) (conversation st)) (schemas (registry orch)) =
      Stream fs \<and> completed_calls fs \<noteq> [] \<longrightarrow>
      streaming_cycles orch sbackend 0 n st =
        (text_fragments fs, Some ToolLoopExceeded, st) \<and>
      (if distinct (map invocation_id (completed_calls fs)) \<and>
          (\<forall>call\<in>set (completed_calls fs).
             invocation_id call \<notin> set (answered_ids (messages (conversation st))))
       then \<exists>st1. messages (conversation st1) =
                messages (conversation st) @
                assistant_message (concat (text_fragments fs)) (completed_calls fs) #
                tool_results (registry orch) (completed_calls fs) (environment st) \<and>
              streaming_cycles orch sbackend (Suc r) n st =
                (case streaming_cycles orch sbackend r (Suc n) st1 of
                   (out, res) \<Rightarrow> (text_fragments fs @ out, res))
       else \<exists>k<length (completed_calls fs). \<exists>st2.
              streaming_cycles orch sbackend (Suc r) n st =
                (text_fragments fs, Some DanglingToolResult, st2) \<and>
              messages (conversation st2) =
                messages (conversation st) @
                assistant_message (concat (text_fragments fs)) (completed_calls fs) #
                tool_results (registry orch) (take k (completed_calls fs))
                  (environment st))) \<and>
   (closes_once fs \<longrightarrow>
      map invocation_id (completed_calls fs) =
        filter (\<lambda>i. i \<in> set (finished_ids fs)) (first_ids fs)) \<and>
   map answers (tool_results (registry orch) calls env) =
     map (\<lambda>call. Some (invocation_id call)) calls \<and>
   map role (tool_results (registry orch) calls env) = map (\<lambda>call. ToolResult) calls \<and>
   (run orch backend user_text st = (res, st') \<longrightarrow>
      (\<exists>rounds last.
         length rounds \<le> max_cycles orch \<and>
         messages (conversation st') =
           messages (conversation st) @ user_message user_text #
           concat (map (cycle_messages (registry orch)) rounds) @ last \<and>
         (case res of
            Inr final \<Rightarrow> last = [assistant_message final []]
          | Inl err \<Rightarrow>
              if err = DanglingToolResult
              then \<exists>t' calls' env' k. k < length calls' \<and>
                     last = assistant_message t' calls' #
                            tool_results (registry orch) (take k calls') env'
              else last = []))) \<and>
   (run_streaming orch sbackend user_text st = (out, sres, st'') \<longrightarrow>
      (\<exists>rounds last.
         length rounds \<le> max_cycles orch \<and>
         messages (conversation st'') =
           messages (conversation st) @ user_message user_text #
           concat (map (cycle_messages (registry orch)) rounds) @ last \<and>
         (case sres of
            None \<Rightarrow> (\<exists>final. last = [assistant_message final []])
          | Some err \<Rightarrow>
              if err = DanglingToolResult
              then \<exists>t' calls' env' k. k < length calls' \<and>
                     last = assistant_message t' calls' #
                            tool_results (registry orch) (take k calls') env'
              else last = [])))"
proof (intro conjI impI)
  assume "backend n (snapshot (estimate orch) (conversation st)) (schemas (registry orch)) =
      Replied t calls \<and> calls \<noteq> []"
  then have b: "backend n (snapshot (estimate orch) (conversation st))
      (schemas (registry orch)) = Replied t calls" "calls \<noteq> []"
    by simp_all
  show "cycles orch backend 0 n st = (Inl ToolLoopExceeded, st)"
    by (rule cycles_step(1)
          [where backend = backend and orch = orch and n = n and st = st, OF b])
  show "if distinct (map invocation_id calls) \<and>
          (\<forall>call\<in>set calls.
             invocation_id call \<notin> set (answered_ids (messages (conversation st))))
       then \<exists>st1. messages (conversation st1) =
                messages (conversation st) @
                assistant_message t calls #
                tool_results (registry orch) calls (environment st) \<and>
              cycles orch backend (Suc r) n st = cycles orch backend r (Suc n) st1
       else \<exists>k<length calls. \<exists>st2.
              cycles orch backend (Suc r) n st = (Inl DanglingToolResult, st2) \<and>
              messages (conversation st2) =
                messages (conversation st) @
                assistant_message t calls #
                tool_results (registry orch) (take k calls) (environment st)"
    by (rule cycles_step(2)
          [where backend = backend and orch = orch and n = n and st = st and r = r, OF b])
next
  assume "sbackend n (snapshot (estimate orch) (conversation st)) (schemas (registry orch)) =
      Stream fs \<and> completed_calls fs \<noteq> []"
  then have b: "sbackend n (snapshot (estimate orch) (conversation st))
      (schemas (registry orch)) = Stream fs" "completed_calls fs \<noteq> []"
    by simp_all
  show "streaming_cycles orch sbackend 0 n st =
      (text_fragments fs, Some ToolLoopExceeded, st)"
    by (rule streaming_cycles_step(1)
          [where backend = sbackend and orch = orch and n = n and st = st, OF b])
  show "if distinct (map invocation_id (completed_calls fs)) \<and>
          (\<forall>call\<in>set (completed_calls fs).
             invocation_id call \<notin> set (answered_ids (messages (conversation st))))
       then \<exists>st1. messages (conversation st1) =
                messages (conversation st) @
                assistant_message (concat (text_fragments fs)) (completed_calls fs) #
                tool_results (registry orch) (completed_calls fs) (environment st) \<and>
              streaming_cycles orch sbackend (Suc r) n st =
                (case streaming_cycles orch sbackend r (Suc n) st1 of
                   (out, res) \<Rightarrow> (text_fragments fs @ out, res))
       else \<exists>k<length (completed_calls fs). \<exists>st2.
              streaming_cycles orch sbackend (Suc r) n st =
                (text_fragments fs, Some DanglingToolResult, st2) \<and>
              messages (conversation st2) =
                messages (conversation st) @
                assistant_message (concat (text_fragments fs)) (completed_calls fs) #
                tool_results (registry orch) (take k (completed_calls fs))
                  (environment st)"
    by (rule streaming_cycles_step(2)
          [where backend = sbackend and orch = orch and n = n and st = st and r = r, OF b])
next
  assume "closes_once fs"
  then show "map invocation_id (completed_calls fs) =
      filter (\<lambda>i. i \<in> set (finished_ids fs)) (first_ids fs)"
    by (rule completed_calls_order)
next
  show "map answers (tool_results (registry orch) calls env) =
      map (\<lambda>call. Some (invocation_id call)) calls"
    by (rule tool_results_answers)
next
  show "map role (tool_results (registry orch) calls env) = map (\<lambda>call. ToolResult) calls"
    by (induction calls arbitrary: env)
       (auto simp: tool_result_message_def split: prod.splits)
next
  assume "run orch backend user_text st = (res, st')"
  then show "\<exists>rounds last.
         length rounds \<le> max_cycles orch \<and>
         messages (conversation st') =
           messages (conversation st) @ user_message user_text #
           concat (map (cycle_messages (registry orch)) rounds) @ last \<and>
         (case res of
            Inr final \<Rightarrow> last = [assistant_message final []]
          | Inl err \<Rightarrow>
              if err = DanglingToolResult
              then \<exists>t' calls' env' k. k < length calls' \<and>
                     last = assistant_message t' calls' #
                            tool_results (registry orch) (take k calls') env'
              else last = [])"
    by (rule run_rounds)
next
  assume "run_streaming orch sbackend user_text st = (out, sres, st'')"
  then show "\<exists>rounds last.
         length rounds \<le> max_cycles orch \<and>
         messages (conversation st'') =
           messages (conversation st) @ user_message user_text #
           concat (map (cycle_messages (registry orch)) rounds) @ last \<and>
         (case sres of
            None \<Rightarrow> (\<exists>final. last = [assistant_message final []])
          | Some err \<Rightarrow>
              if err = DanglingToolResult
              then \<exists>t' calls' env' k. k < length calls' \<and>
                     last = assistant_message t' calls' #
                            tool_results (registry orch) (take k calls') env'
              else last = [])"
    by (rule run_streaming_rounds)
qed

text \<open>With a ceiling of two cycles, a reply with two requests of distinct ids gets the
  two tool-results in the order of the requests, before the final reply; the streaming
  loop does the same for a reply that completes the second request before the first;
  with no cycle left, both loops fail with \<open>ToolLoopExceeded\<close> and append nothing.\<close>

theorem tool_results_follow_requests_witness:
  "cycles tool_orchestrator two_then_final 0 0 idle_agent = (Inl ToolLoopExceeded, idle_agent) \<and>
   run tool_orchestrator two_then_final ''go'' idle_agent =
     (Inr ''done'',
      idle_agent\<lparr>conversation := (conversation idle_agent)\<lparr>messages :=
        [user_message ''go'',
         assistant_message [] two_calls,
         tool_result_message ''a'' (Failure ''no such file''),
         tool_result_message ''b'' (Failure ''unknown tool: write_file''),
         assistant_message ''done'' []]\<rparr>\<rparr>) \<and>
   completed_calls interleaved_fragments = two_calls \<and>
   map invocation_id (completed_calls interleaved_fragments) = [''a'', ''b''] \<and>
   streaming_cycles tool_orchestrator interleaved_stream 0 0 idle_agent =
     ([], Some ToolLoopExceeded, idle_agent) \<and>
   run_streaming tool_orchestrator interleaved_stream ''go'' idle_agent =
     ([''done''], None,
      idle_agent\<lparr>conversation := (conversation idle_agent)\<lparr>messages :=
        [user_message ''go'',
         assistant_message [] two_calls,
         tool_result_message ''a'' (Failure ''no such file''),
         tool_result_message ''b'' (Failure ''unknown tool: write_file''),
         assistant_message ''done'' []]\<rparr>\<rparr>)"
proof -
  let ?final = "idle_agent\<lparr>conversation := (conversation idle_agent)\<lparr>messages :=
        [user_message ''go'',
         assistant_message [] two_calls,
         tool_result_message ''a'' (Failure ''no such file''),
         tool_result_message ''b'' (Failure ''unknown tool: write_file''),
         assistant_message ''done'' []]\<rparr>\<rparr>"
  have h1: "two_then_final 0 (snapshot (estimate tool_orchestrator) (conversation idle_agent))
      (schemas (registry tool_orchestrator)) = Replied [] two_calls \<and> two_calls \<noteq> []"
    by (simp add: two_then_final_def two_calls_def)
  have c: "completed_calls interleaved_fragments = two_calls"
    by code_simp
  have h2: "interleaved_stream 0 (snapshot (estimate tool_orchestrator) (conversation idle_agent))
      (schemas (registry tool_orchestrator)) = Stream interleaved_fragments \<and>
      completed_calls interleaved_fragments \<noteq> []"
    by (simp add: interleaved_stream_def c) (simp add: two_calls_def)
  have h3: "closes_once interleaved_fragments"
    by (simp add: interleaved_fragments_def)
  have h4: "run tool_orchestrator two_then_final ''go'' idle_agent = (Inr ''done'', ?final)"
    by code_simp
  have h5: "run_streaming tool_orchestrator interleaved_stream ''go'' idle_agent =
      ([''done''], None, ?final)"
    by code_simp
  note t = tool_results_follow_requests [where orch = tool_orchestrator
      and backend = two_then_final and sbackend = interleaved_stream and n = 0
      and st = idle_agent and t = "[]" and calls = two_calls and fs = interleaved_fragments
      and r = 1 and env = "()" and user_text = "''go''" and res = "Inr ''done''"
      and st' = ?final and out = "[''done'']" and sres = None and st'' = ?final]
  from t [THEN conjunct1, THEN mp, OF h1]
  have r1: "cycles tool_orchestrator two_then_final 0 0 idle_agent =
      (Inl ToolLoopExceeded, idle_agent)"
    by (rule conjunct1)
  from t [THEN conjunct2, THEN conjunct1, THEN mp, OF h2]
  have r2: "streaming_cycles tool_orchestrator interleaved_stream 0 0 idle_agent =
      (text_fragments interleaved_fragments, Some ToolLoopExceeded, idle_agent)"
    by (rule conjunct1)
  have tf: "text_fragments interleaved_fragments = []"
    by (simp add: interleaved_fragments_def)
  from t [THEN conjunct2, THEN conjunct2, THEN conjunct1, THEN mp, OF h3]
  have r3: "map invocation_id (completed_calls interleaved_fragments) =
      filter (\<lambda>i. i \<in> set (finished_ids interleaved_fragments))
        (first_ids interleaved_fragments)" .
  have "filter (\<lambda>i. i \<in> set (finished_ids interleaved_fragments))
        (first_ids interleaved_fragments) = [''a'', ''b'']"
    by (simp add: interleaved_fragments_def)
  with r3 have r3': "map invocation_id (completed_calls interleaved_fragments) = [''a'', ''b'']"
    by simp
  from r1 r2 tf r3' c h4 h5 show ?thesis by simp
qed

text \<open>The claim as it was written fails for a reply that uses an invocation id twice:
  the second tool-result has no open invocation, \<open>append\<close> fails with
  \<open>DanglingToolResult\<close>, and one of the two requests stays without a result. It also
  fails for a reply that arrives when the ceiling is reached (here a ceiling of zero
  cycles): the run fails with \<open>ToolLoopExceeded\<close> and none of the two requests of the
  reply gets a result.\<close>

theorem repeated_id_or_ceiling_leaves_requests_unanswered:
  "run tool_orchestrator same_id_backend ''go'' idle_agent =
     (Inl DanglingToolResult,
      idle_agent\<lparr>conversation := (conversation idle_agent)\<lparr>messages :=
        [user_message ''go'',
         assistant_message [] same_id_calls,
         tool_result_message ''a'' (Failure ''no such file'')]\<rparr>\<rparr>) \<and>
   length same_id_calls = 2 \<and>
   run no_cycles_orchestrator two_then_final ''go'' idle_agent =
     (Inl ToolLoopExceeded,
      idle_agent\<lparr>conversation := (conversation idle_agent)\<lparr>messages :=
        [user_message ''go'']\<rparr>\<rparr>) \<and>
   two_then_final 0 [user_message ''go''] (schemas (registry no_cycles_orchestrator)) =
     Replied [] two_calls \<and>
   length two_calls = 2"
  by code_simp

section \<open>The iteration ceiling\<close>

text \<open>
  Claim C3, as amended. Let the backend issue at least one tool-call request in every
  reply, with invocation ids that are distinct within the reply and fresh: the ids of
  the reply to request \<open>n\<close> lie in a set \<open>fresh n\<close>, these sets are pairwise disjoint,
  and none of their ids is answered in the transcript at the start. Then \<open>run\<close> fails
  with \<open>ToolLoopExceeded\<close>; the transcript at the failure is the one at the start,
  followed by the user message and the messages of exactly \<open>max_cycles\<close> tool-dispatch
  cycles (one assistant message each), in which every request is answered in order.
\<close>

theorem run_stops_at_the_ceiling:
  assumes "\<forall>n snap. \<exists>t calls.
        backend n snap (schemas (registry orch)) = Replied t calls \<and> calls \<noteq> [] \<and>
        distinct (map invocation_id calls) \<and> set (map invocation_id calls) \<subseteq> fresh n"
    and "\<forall>n m. n \<noteq> m \<longrightarrow> fresh n \<inter> fresh m = {}"
    and "\<forall>n. fresh n \<inter> set (answered_ids (messages (conversation st))) = {}"
  shows "\<exists>st' appended.
           run orch backend user_text st = (Inl ToolLoopExceeded, st') \<and>
           messages (conversation st') =
             messages (conversation st) @ user_message user_text # appended \<and>
           length (filter (\<lambda>m. role m = Assistant) appended) = max_cycles orch \<and>
           answered_ids appended = requested_ids appended"
proof -
  let ?st1 = "st\<lparr>conversation := (conversation st)
      \<lparr>messages := messages (conversation st) @ [user_message user_text]\<rparr>\<rparr>"
  have u: "append_message (conversation st) (user_message user_text) =
      Inr ((conversation st)\<lparr>messages := messages (conversation st) @ [user_message user_text]\<rparr>)"
    by (simp add: append_message_def user_message_def)
  have r: "run orch backend user_text st = cycles orch backend (max_cycles orch) 0 ?st1"
    by (simp add: run_def u)
  have "answered_ids [user_message user_text] = []"
    by (simp add: answered_ids_def user_message_def)
  with assms(3) have
    "\<forall>m\<ge>0. fresh m \<inter> set (answered_ids (messages (conversation ?st1))) = {}"
    by simp
  from cycles_exceed [where backend = backend and orch = orch and fresh = fresh and n = 0
      and st = ?st1 and remaining = "max_cycles orch", OF assms(1,2) this]
  obtain st' appended where
    c: "cycles orch backend (max_cycles orch) 0 ?st1 = (Inl ToolLoopExceeded, st')"
       "messages (conversation st') = messages (conversation ?st1) @ appended"
       "length (filter (\<lambda>m. role m = Assistant) appended) = max_cycles orch"
       "answered_ids appended = requested_ids appended"
    by blast
  from c(2) have "messages (conversation st') =
      messages (conversation st) @ user_message user_text # appended" by simp
  with r c(1,3,4) show ?thesis by auto
qed

text \<open>With a ceiling of two cycles, a backend that numbers its requests is stopped
  after two cycles.\<close>

lemma counting_run:
  "run tool_orchestrator counting_backend ''go'' idle_agent =
     (Inl ToolLoopExceeded,
      idle_agent\<lparr>conversation := (conversation idle_agent)\<lparr>messages :=
        [user_message ''go'',
         assistant_message []
           [\<lparr>invocation_id = ''i'', tool_name = ''read_file'', arguments = ''notes.txt''\<rparr>],
         tool_result_message ''i'' (Failure ''no such file''),
         assistant_message []
           [\<lparr>invocation_id = ''ii'', tool_name = ''read_file'', arguments = ''notes.txt''\<rparr>],
         tool_result_message ''ii'' (Failure ''no such file'')]\<rparr>\<rparr>)"
  by code_simp

theorem run_stops_at_the_ceiling_witness:
  "run tool_orchestrator counting_backend ''go'' idle_agent =
     (Inl ToolLoopExceeded,
      idle_agent\<lparr>conversation := (conversation idle_agent)\<lparr>messages :=
        [user_message ''go'',
         assistant_message []
           [\<lparr>invocation_id = ''i'', tool_name = ''read_file'', arguments = ''notes.txt''\<rparr>],
         tool_result_message ''i'' (Failure ''no such file''),
         assistant_message []
           [\<lparr>invocation_id = ''ii'', tool_name = ''read_file'', arguments = ''notes.txt''\<rparr>],
         tool_result_message ''ii'' (Failure ''no such file'')]\<rparr>\<rparr>) \<and>
   max_cycles tool_orchestrator = 2"
proof -
  have h1: "\<forall>n snap. \<exists>t calls.
        counting_backend n snap (schemas (registry tool_orchestrator)) = Replied t calls \<and>
        calls \<noteq> [] \<and> distinct (map invocation_id calls) \<and>
        set (map invocation_id calls) \<subseteq> {replicate (Suc n) CHR ''i''}"
    by (simp add: counting_backend_def)
  have h2: "\<forall>n m. n \<noteq> m \<longrightarrow>
      {replicate (Suc n) CHR ''i''} \<inter> {replicate (Suc m) CHR ''i''} = {}"
    by simp
  have h3: "\<forall>n. {replicate (Suc n) CHR ''i''} \<inter>
      set (answered_ids (messages (conversation idle_agent))) = {}"
    by (simp add: idle_agent_def answered_ids_def)
  from run_stops_at_the_ceiling [where backend = counting_backend and orch = tool_orchestrator
      and fresh = "\<lambda>n. {replicate (Suc n) CHR ''i''}" and st = idle_agent
      and user_text = "''go''", OF h1 h2 h3]
  have "fst (run tool_orchestrator counting_backend ''go'' idle_agent) = Inl ToolLoopExceeded"
    by auto
  with counting_run show ?thesis by (simp add: tool_orchestrator_def)
qed

text \<open>The claim as it was written fails for a backend that requests a tool in every
  reply under the same invocation id: with a ceiling of two cycles the run fails in
  the second cycle with \<open>DanglingToolResult\<close>, not with \<open>ToolLoopExceeded\<close>.\<close>

theorem repeated_id_ends_the_run_early:
  "run tool_orchestrator repeating_backend ''go'' idle_agent =
     (Inl DanglingToolResult,
      idle_agent\<lparr>conversation := (conversation idle_agent)\<lparr>messages :=
        [user_message ''go'',
         assistant_message [] [read_call],
         tool_result_message ''a'' (Failure ''no such file''),
         assistant_message [] [read_call]]\<rparr>\<rparr>) \<and>
   max_cycles tool_orchestrator = 2"
  by code_simp

section \<open>Reset\<close>

text \<open>
  Claim C4. \<open>reset\<close> with \<open>keep_system = True\<close> leaves exactly the system message
  when the transcript has one, and nothing otherwise; with \<open>keep_system = False\<close> it
  leaves an empty transcript. No other operation removes a message: \<open>append\<close> adds
  one message at the tail, \<open>snapshot\<close> returns a list and no state, and after \<open>run\<close>
  and \<open>run_streaming\<close>, however they end, the transcript at the start is a prefix of
  the transcript at the end.
\<close>

theorem reset_only_removes:
  "messages (reset True c) =
     (case messages c of [] \<Rightarrow> [] | m # rest \<Rightarrow> if role m = System then [m] else []) \<and>
   messages (reset False c) = [] \<and>
   (\<forall>m c'. append_message c m = Inr c' \<longrightarrow> messages c' = messages c @ [m]) \<and>
   prefix (messages (conversation st)) (messages (conversation (snd (run orch backend t st)))) \<and>
   prefix (messages (conversation st))
     (messages (conversation (snd (snd (run_streaming orch sbackend t st)))))"
proof (intro conjI allI impI)
  show "messages (reset True c) =
     (case messages c of [] \<Rightarrow> [] | m # rest \<Rightarrow> if role m = System then [m] else [])"
    by (simp add: reset_def system_part_def)
  show "messages (reset False c) = []"
    by (simp add: reset_def)
  show "messages c' = messages c @ [m]" if "append_message c m = Inr c'" for m c'
    using append_message_Inr [OF that] by simp
  show "prefix (messages (conversation st)) (messages (conversation (snd (run orch backend t st))))"
    by (rule run_extends)
  show "prefix (messages (conversation st))
     (messages (conversation (snd (snd (run_streaming orch sbackend t st)))))"
    by (rule run_streaming_extends)
qed

theorem reset_only_removes_witness:
  "messages (reset True example_conversation) =
     [\<lparr>role = System, content = ''sys'', tool_calls = [], answers = None\<rparr>] \<and>
   messages (reset False example_conversation) = [] \<and>
   messages (reset True (conversation idle_agent)) = []"
proof -
  note example =
    reset_only_removes [where c = example_conversation and st = idle_agent
      and orch = tool_orchestrator and backend = greeting_backend and t = "''hi''"
      and sbackend = greeting_stream]
  note idle =
    reset_only_removes [where c = "conversation idle_agent" and st = idle_agent
      and orch = tool_orchestrator and backend = greeting_backend and t = "''hi''"
      and sbackend = greeting_stream]
  from example have "messages (reset True example_conversation) =
     [\<lparr>role = System, content = ''sys'', tool_calls = [], answers = None\<rparr>] \<and>
   messages (reset False example_conversation) = []"
    by (simp add: example_conversation_def example_transcript_def)
  moreover from idle have "messages (reset True (conversation idle_agent)) = []"
    by (simp add: idle_agent_def)
  ultimately show ?thesis by simp
qed

section \<open>The trimmed snapshot\<close>

text \<open>
  Claim C5. For every conversation and every estimator, the snapshot begins with the
  system message when the transcript has one; for every assistant message of the
  transcript that carries a request and every tool-result of the transcript that
  answers it, the snapshot contains the one exactly when it contains the other; and
  the snapshot is the system message followed by the transcript without its \<open>k\<close>
  oldest non-system messages, for the least \<open>k\<close> that splits no pair and fits the
  token ceiling (all of them when no such \<open>k\<close> exists).
\<close>

theorem snapshot_keeps_system_and_pairs:
  "(\<forall>m rest. messages c = m # rest \<and> role m = System \<longrightarrow>
      (\<exists>kept. snapshot est c = m # kept)) \<and>
   (\<forall>call result i.
      call \<in> set (messages c) \<and> result \<in> set (messages c) \<and> role call = Assistant \<and>
      role result = ToolResult \<and> answers result = Some i \<and>
      i \<in> set (map invocation_id (tool_calls call)) \<longrightarrow>
      (call \<in> set (snapshot est c) \<longleftrightarrow> result \<in> set (snapshot est c))) \<and>
   (\<exists>k\<le>length (evictable (messages c)).
      snapshot est c = system_part (messages c) @ drop k (evictable (messages c)) \<and>
      (\<forall>j<k. \<not> admissible est c j) \<and>
      (k < length (evictable (messages c)) \<longrightarrow>
         cost est (model_name c) (snapshot est c) \<le> token_ceiling c))"
proof (intro conjI allI impI)
  fix m rest
  assume "messages c = m # rest \<and> role m = System"
  then show "\<exists>kept. snapshot est c = m # kept"
    by (simp add: snapshot_def system_part_def)
next
  fix call result i
  assume a: "call \<in> set (messages c) \<and> result \<in> set (messages c) \<and> role call = Assistant \<and>
      role result = ToolResult \<and> answers result = Some i \<and>
      i \<in> set (map invocation_id (tool_calls call))"
  then have "answers_call result call" by (simp add: answers_call_def)
  with a show "call \<in> set (snapshot est c) \<longleftrightarrow> result \<in> set (snapshot est c)"
    using snapshot_pair [of call c result est] by simp
next
  let ?k = "eviction_boundary est c"
  note p = eviction_boundary_props [of est c]
  have "snapshot est c = system_part (messages c) @ drop ?k (evictable (messages c))"
    by (simp add: snapshot_def)
  moreover have "?k < length (evictable (messages c)) \<longrightarrow>
      cost est (model_name c) (snapshot est c) \<le> token_ceiling c"
    using p by (simp add: admissible_def snapshot_def)
  ultimately show "\<exists>k\<le>length (evictable (messages c)).
      snapshot est c = system_part (messages c) @ drop k (evictable (messages c)) \<and>
      (\<forall>j<k. \<not> admissible est c j) \<and>
      (k < length (evictable (messages c)) \<longrightarrow>
         cost est (model_name c) (snapshot est c) \<le> token_ceiling c)"
    using p by blast
qed

lemma example_snapshot:
  "snapshot by_length example_conversation =
     [\<lparr>role = System, content = ''sys'', tool_calls = [], answers = None\<rparr>, user_message ''ok'']"
  by code_simp

theorem snapshot_keeps_system_and_pairs_witness:
  "snapshot by_length example_conversation =
     [\<lparr>role = System, content = ''sys'', tool_calls = [], answers = None\<rparr>, user_message ''ok''] \<and>
   (assistant_message [] [read_call] \<in> set (snapshot by_length example_conversation)) =
   (tool_result_message ''a'' (Success ''four'') \<in> set (snapshot by_length example_conversation))"
proof -
  have "assistant_message [] [read_call] \<in> set (messages example_conversation) \<and>
      tool_result_message ''a'' (Success ''four'') \<in> set (messages example_conversation) \<and>
      role (assistant_message [] [read_call]) = Assistant \<and>
      role (tool_result_message ''a'' (Success ''four'')) = ToolResult \<and>
      answers (tool_result_message ''a'' (Success ''four'')) = Some ''a'' \<and>
      ''a'' \<in> set (map invocation_id (tool_calls (assistant_message [] [read_call])))"
    by (simp add: example_conversation_def example_transcript_def assistant_message_def
        tool_result_message_def read_call_def)
  with snapshot_keeps_system_and_pairs [of example_conversation by_length]
  have "(assistant_message [] [read_call] \<in> set (snapshot by_length example_conversation)) =
   (tool_result_message ''a'' (Success ''four'') \<in> set (snapshot by_length example_conversation))"
    by blast
  with example_snapshot show ?thesis by blast
qed

section \<open>Streaming and synchronous loop\<close>

text \<open>
  Claim C6. Let the synchronous backend return, for every request, the reply that the
  streaming backend delivers in fragments, and let the reply of a turn carry no
  completed tool-call request. Then \<open>run_streaming\<close> yields the text fragments of the
  reply, \<open>run\<close> returns a final text, both end in the same state, and the
  concatenation of the yielded fragments is that final text.
\<close>

theorem streamed_fragments_concatenate_to_final_text:
  assumes "\<forall>n snap tools. backend n snap tools = assemble (sbackend n snap tools)"
    and "sbackend 0
           (snapshot (estimate orch)
              ((conversation st)\<lparr>messages := messages (conversation st) @ [user_message user_text]\<rparr>))
           (schemas (registry orch)) = Stream fs"
    and "completed_calls fs = []"
  shows "\<exists>out final st'.
           run_streaming orch sbackend user_text st = (out, None, st') \<and>
           run orch backend user_text st = (Inr final, st') \<and>
           concat out = final \<and> out = text_fragments fs"
proof -
  let ?conv = "(conversation st)\<lparr>messages := messages (conversation st) @ [user_message user_text]\<rparr>"
  let ?st1 = "st\<lparr>conversation := ?conv\<rparr>"
  let ?final = "concat (text_fragments fs)"
  let ?st2 = "?st1\<lparr>conversation := ?conv\<lparr>messages := messages ?conv @ [assistant_message ?final []]\<rparr>\<rparr>"
  have u: "append_message (conversation st) (user_message user_text) = Inr ?conv"
    by (simp add: append_message_def user_message_def)
  have f: "finish ?final ?st1 = (None, ?st2)"
    by (simp add: finish_def append_message_def assistant_message_def)
  have b: "backend 0 (snapshot (estimate orch) ?conv) (schemas (registry orch)) = Replied ?final []"
    using assms by (simp add: assemble_def)
  have s: "streaming_cycles orch sbackend (max_cycles orch) 0 ?st1 = (text_fragments fs, None, ?st2)"
    by (subst streaming_cycles.simps) (simp add: assms(2,3) f)
  have c: "cycles orch backend (max_cycles orch) 0 ?st1 = (Inr ?final, ?st2)"
    by (subst cycles.simps) (simp add: b f)
  have "run_streaming orch sbackend user_text st = (text_fragments fs, None, ?st2)"
    by (simp add: run_streaming_def u s)
  moreover have "run orch backend user_text st = (Inr ?final, ?st2)"
    by (simp add: run_def u c)
  ultimately show ?thesis by blast
qed

lemma greeting_runs:
  "run_streaming tool_orchestrator greeting_stream ''hi'' idle_agent =
     ([''Hel'', ''lo''], None,
      idle_agent\<lparr>conversation := (conversation idle_agent)\<lparr>messages :=
        [user_message ''hi'', assistant_message ''Hello'' []]\<rparr>\<rparr>)"
  "run tool_orchestrator greeting_backend ''hi'' idle_agent =
     (Inr ''Hello'',
      idle_agent\<lparr>conversation := (conversation idle_agent)\<lparr>messages :=
        [user_message ''hi'', assistant_message ''Hello'' []]\<rparr>\<rparr>)"
  by code_simp+

theorem streamed_fragments_concatenate_to_final_text_witness:
  "run_streaming tool_orchestrator greeting_stream ''hi'' idle_agent =
     ([''Hel'', ''lo''], None,
      idle_agent\<lparr>conversation := (conversation idle_agent)\<lparr>messages :=
        [user_message ''hi'', assistant_message ''Hello'' []]\<rparr>\<rparr>) \<and>
   run tool_orchestrator greeting_backend ''hi'' idle_agent =
     (Inr ''Hello'',
      idle_agent\<lparr>conversation := (conversation idle_agent)\<lparr>messages :=
        [user_message ''hi'', assistant_message ''Hello'' []]\<rparr>\<rparr>) \<and>
   concat [''Hel'', ''lo''] = ''Hello''"
proof -
  have h1: "\<forall>n snap tools. greeting_backend n snap tools = assemble (greeting_stream n snap tools)"
    by (simp add: greeting_backend_def)
  have h2: "greeting_stream 0
           (snapshot (estimate tool_orchestrator)
              ((conversation idle_agent)
                 \<lparr>messages := messages (conversation idle_agent) @ [user_message ''hi'']\<rparr>))
           (schemas (registry tool_orchestrator)) =
        Stream [TextFragment ''Hel'', TextFragment ''lo'']"
    by (simp add: greeting_stream_def)
  have h3: "completed_calls [TextFragment ''Hel'', TextFragment ''lo''] = []"
    by (simp add: completed_calls_def)
  from streamed_fragments_concatenate_to_final_text [OF h1 h2 h3]
  obtain out final st' where
    "run_streaming tool_orchestrator greeting_stream ''hi'' idle_agent = (out, None, st')"
    "run tool_orchestrator greeting_backend ''hi'' idle_agent = (Inr final, st')"
    "concat out = final" by blast
  with greeting_runs show ?thesis by simp
qed

end
